theory Spec2Isabelle
  imports Main "HOL-Library.AList"
begin

section \<open>The type registry of go-restli\<close>

text \<open>
  The registry (package \<open>utils\<close>) keeps every declared type under its Identifier, remembers the
  package root that owns it, finds cyclic package dependencies and renames colliding cyclic
  types. Go maps that the code iterates over are association lists here: the order of the list
  stands for the order in which \<open>range\<close> happens to visit the map, which Go leaves
  unspecified, and every theorem holds for every such list.
\<close>

subsection \<open>Identifiers\<close>

record Identifier =
  Name :: string
  Namespace :: string

text \<open>
  Modelled from the spec: the methods of Identifier are declared outside the files at hand.
  \<open>FullName()\<close> is \<open>Namespace + "." + Name\<close>.
\<close>

definition FullName :: "Identifier \<Rightarrow> string" where
  "FullName i = Namespace i @ ''.'' @ Name i"

text \<open>
  Modelled from the spec: \<open>PackagePath()\<close> "derives a module path from the namespace". The
  derivation used here turns the dots of the namespace into slashes; the general theorems never
  look inside it.
\<close>

definition PackagePath :: "Identifier \<Rightarrow> string" where
  "PackagePath i = map (\<lambda>c. if c = CHR ''.'' then CHR ''/'' else c) (Namespace i)"

text \<open>
  An IdentifierSet is a Go \<open>map[Identifier]bool\<close> used as a set; the list holds its members in
  iteration order. \<open>Add\<close> stores the member, which changes nothing when it is there already.
\<close>

type_synonym IdentifierSet = "Identifier list"

definition Add_set :: "IdentifierSet \<Rightarrow> Identifier \<Rightarrow> IdentifierSet" where
  "Add_set s i = (if i \<in> set s then s else s @ [i])"

subsection \<open>Registered types\<close>

text \<open>
  Of the ComplexType interface the registry calls \<open>GetIdentifier\<close> and \<open>InnerTypes\<close>;
  \<open>GetSourceFile\<close> is kept as data, \<open>ShouldReference\<close> and \<open>GenerateCode\<close> belong to code
  emission and are left out.
\<close>

record ComplexType =
  GetIdentifier :: Identifier
  GetSourceFile :: string
  InnerTypes :: IdentifierSet

record registeredType =
  Type :: ComplexType
  PackageRoot :: string
  IsCyclic :: bool
  TypeNameOverride :: string
  IsCustomTyperef :: bool

record typeRegistry =
  types :: "(Identifier \<times> registeredType) list"
  packageRoots :: "(string \<times> IdentifierSet) list"

definition TypeRegistry :: typeRegistry where
  "TypeRegistry = \<lparr>types = [], packageRoots = []\<rparr>"

text \<open>
  Errors are values. The constructors stand for the format strings of the code and carry the
  arguments the code passes to them; a panic of \<open>log.Panicf\<close> or of an out-of-range slice is an
  error value as well.
\<close>

datatype error =
    AlreadyRegistered Identifier string
  | UnknownDependency string string
  | CrossPackageCycle string
  | RenameConflict string string string string
  | PanicUnknownType string
  | PanicSliceBounds

subsection \<open>Register\<close>

text \<open>
  \<open>Register\<close> mutates the registry in place and returns an error; the model returns the registry
  after the call together with the error, so that the state after a failed call can be
  inspected. The call \<open>addImportName(ident.PackagePath())\<close> writes to the table of import names,
  which is not part of the registry and is not modelled.
\<close>

definition Register :: "typeRegistry \<Rightarrow> ComplexType \<Rightarrow> string \<Rightarrow> typeRegistry \<times> error option" where
  "Register reg t packageRoot =
    (let ident = GetIdentifier t in
     case map_of (types reg) ident of
       None \<Rightarrow>
         (let reg1 = reg\<lparr>types := AList.update ident
                        \<lparr>Type = t, PackageRoot = packageRoot, IsCyclic = False,
                         TypeNameOverride = [], IsCustomTyperef = False\<rparr> (types reg)\<rparr>;
              reg2 = (case map_of (packageRoots reg1) packageRoot of
                        None \<Rightarrow> reg1\<lparr>packageRoots := AList.update packageRoot [] (packageRoots reg1)\<rparr>
                      | Some _ \<Rightarrow> reg1);
              members = (case map_of (packageRoots reg2) packageRoot of
                        None \<Rightarrow> [] | Some s \<Rightarrow> s);
              reg3 = reg2\<lparr>packageRoots :=
                        AList.update packageRoot (Add_set members ident) (packageRoots reg2)\<rparr>
          in (reg3, None))
     | Some ct \<Rightarrow> (reg, Some (AlreadyRegistered ident (PackageRoot ct))))"

subsection \<open>Lookups\<close>

definition get :: "typeRegistry \<Rightarrow> Identifier \<Rightarrow> error + registeredType" where
  "get reg ident =
    (case map_of (types reg) ident of
       None \<Rightarrow> Inl (PanicUnknownType (FullName ident))
     | Some t \<Rightarrow> Inr t)"

definition PackageRoot_reg :: "typeRegistry \<Rightarrow> Identifier \<Rightarrow> error + string" where
  "PackageRoot_reg reg ident = (case get reg ident of Inl e \<Rightarrow> Inl e | Inr t \<Rightarrow> Inr (PackageRoot t))"

definition IsCyclic_reg :: "typeRegistry \<Rightarrow> Identifier \<Rightarrow> error + bool" where
  "IsCyclic_reg reg ident = (case get reg ident of Inl e \<Rightarrow> Inl e | Inr t \<Rightarrow> Inr (IsCyclic t))"

definition TypeNameOverride_reg :: "typeRegistry \<Rightarrow> Identifier \<Rightarrow> string" where
  "TypeNameOverride_reg reg ident =
    (case map_of (types reg) ident of Some t \<Rightarrow> TypeNameOverride t | None \<Rightarrow> [])"

text \<open>
  Modelled from the spec: \<open>Identifier.PackageRoot()\<close>, called on the members of a cycle, is
  declared outside the files at hand; the registry "tracks which package-root module owns each
  type", so it is the registry's \<open>PackageRoot\<close> of the identifier.
\<close>

definition PackageRoot_id :: "typeRegistry \<Rightarrow> Identifier \<Rightarrow> error + string" where
  "PackageRoot_id reg ident = PackageRoot_reg reg ident"

subsection \<open>Paths\<close>

type_synonym Path = "Identifier list"

definition Add :: "Path \<Rightarrow> Identifier \<Rightarrow> Path" where
  "Add p ident = p @ [ident]"

fun SeenNode :: "Path \<Rightarrow> Identifier \<Rightarrow> bool" where
  "SeenNode [] ident = False"
| "SeenNode (node # p) ident = (if node = ident then True else SeenNode p ident)"

text \<open>
  The loop of \<open>IntroducesCycle\<close> runs \<open>i\<close> from \<open>len(p) - 1\<close> down to \<open>0\<close>; the counter of
  the model is \<open>i + 1\<close>, so that \<open>0\<close> is the exit of the loop.
\<close>

fun IntroducesCycle_loop :: "Path \<Rightarrow> Identifier \<Rightarrow> string \<Rightarrow> nat \<Rightarrow> bool \<Rightarrow> Path" where
  "IntroducesCycle_loop p nextNode nextPkg 0 inSameNamespace = []"
| "IntroducesCycle_loop p nextNode nextPkg (Suc i) inSameNamespace =
    (let pIPkg = PackagePath (p ! i) in
     if pIPkg \<noteq> nextPkg then IntroducesCycle_loop p nextNode nextPkg i False
     else if \<not> inSameNamespace \<and> pIPkg = nextPkg then drop i p @ [nextNode]
     else IntroducesCycle_loop p nextNode nextPkg i inSameNamespace)"

definition IntroducesCycle :: "Path \<Rightarrow> Identifier \<Rightarrow> Path" where
  "IntroducesCycle p nextNode = IntroducesCycle_loop p nextNode (PackagePath nextNode) (length p) True"

subsection \<open>Cycle search\<close>

text \<open>The registered identifiers whose \<open>IsCyclic\<close> flag is not set.\<close>

definition nonCyclic :: "typeRegistry \<Rightarrow> Identifier set" where
  "nonCyclic reg = {k. \<exists>t. map_of (types reg) k = Some t \<and> \<not> IsCyclic t}"

function findCycle :: "typeRegistry \<Rightarrow> Identifier \<Rightarrow> Path \<Rightarrow> error + Path"
  and findCycle_children :: "typeRegistry \<Rightarrow> IdentifierSet \<Rightarrow> Path \<Rightarrow> error + Path"
where
  "findCycle reg nextNode path =
    (let cycle = IntroducesCycle path nextNode in
     if length cycle > 0 then Inr cycle
     else if SeenNode path nextNode then Inr []
     else (case get reg nextNode of
             Inl e \<Rightarrow> Inl e
           | Inr node \<Rightarrow> findCycle_children reg (InnerTypes (Type node)) (Add path nextNode)))"
| "findCycle_children reg [] newPath = Inr []"
| "findCycle_children reg (c # cs) newPath =
    (case IsCyclic_reg reg c of
       Inl e \<Rightarrow> Inl e
     | Inr cyclic \<Rightarrow>
         if \<not> cyclic then
           (case findCycle reg c newPath of
              Inl e \<Rightarrow> Inl e
            | Inr p \<Rightarrow> if length p > 0 then Inr p else findCycle_children reg cs newPath)
         else findCycle_children reg cs newPath)"
  by pat_completeness auto

lemma SeenNode_set: "SeenNode p ident \<longleftrightarrow> ident \<in> set p"
  by (induction p) auto

lemma card_unseen_less:
  assumes "map_of al n = Some v" and "n \<notin> set p"
  shows "card (fst ` set al - insert n (set p)) < card (fst ` set al - set p)"
proof -
  have "n \<in> fst ` set al" using assms(1) by (force dest: map_of_SomeD)
  then have "fst ` set al - insert n (set p) \<subset> fst ` set al - set p"
    using assms(2) by auto
  then show ?thesis by (simp add: psubset_card_mono)
qed

termination findCycle
  by (relation "inv_image (less_than <*lex*> less_than)
    (\<lambda>x. case x of
        Inl (reg, n, path) \<Rightarrow> (card (fst ` set (types reg) - set path), 0)
      | Inr (reg, cs, path) \<Rightarrow> (card (fst ` set (types reg) - set path), Suc (length cs)))")
    (auto simp: get_def Add_def SeenNode_set card_unseen_less split: option.splits)

subsection \<open>Flagging\<close>

text \<open>
  \<open>flagCyclic\<close> sets the flag of the node and then visits its inner types. The package root of
  the node, which the code reads through the pointer \<open>node\<close> in every iteration, is never
  written, so the loop over the inner types takes it as a value.
\<close>

function flagCyclic :: "typeRegistry \<Rightarrow> Identifier \<Rightarrow> error + typeRegistry"
  and flagCyclic_children :: "typeRegistry \<Rightarrow> string \<Rightarrow> IdentifierSet \<Rightarrow> error + typeRegistry"
where
  "flagCyclic reg ident =
    (case get reg ident of
       Inl e \<Rightarrow> Inl e
     | Inr node \<Rightarrow>
         (let reg1 = (if \<not> IsCyclic node
                      then reg\<lparr>types := AList.update ident (node\<lparr>IsCyclic := True\<rparr>) (types reg)\<rparr>
                      else reg)
          in flagCyclic_children reg1 (PackageRoot node) (InnerTypes (Type node))))"
| "flagCyclic_children reg nodeRoot [] = Inr reg"
| "flagCyclic_children reg nodeRoot (c # cs) =
    (case get reg c of
       Inl e \<Rightarrow> Inl e
     | Inr child \<Rightarrow>
         if \<not> IsCyclic child \<and> nodeRoot = PackageRoot child then
           (case flagCyclic reg c of
              Inl e \<Rightarrow> Inl e
            | Inr reg' \<Rightarrow> flagCyclic_children reg' nodeRoot cs)
         else flagCyclic_children reg nodeRoot cs)"
  by pat_completeness auto

lemma nonCyclic_flag:
  "nonCyclic (reg\<lparr>types := AList.update ident (node\<lparr>IsCyclic := True\<rparr>) (types reg)\<rparr>) = nonCyclic reg - {ident}"
  by (auto simp: nonCyclic_def update_conv')

lemma registered_iff: "ident \<in> fst ` set (types reg) \<longleftrightarrow> (\<exists>ct. map_of (types reg) ident = Some ct)"
  by (metis domIff dom_map_of_conv_image_fst not_Some_eq)

lemma get_Inr_iff: "get reg ident = Inr t \<longleftrightarrow> map_of (types reg) ident = Some t"
  by (auto simp: get_def split: option.splits)

lemma nonCyclic_reg1:
  assumes "get reg ident = Inr node"
  shows "nonCyclic (if \<not> IsCyclic node
            then reg\<lparr>types := AList.update ident (node\<lparr>IsCyclic := True\<rparr>) (types reg)\<rparr>
            else reg) = nonCyclic reg - {ident}"
proof (cases "IsCyclic node")
  case True
  then have "ident \<notin> nonCyclic reg" using assms by (auto simp: nonCyclic_def get_Inr_iff)
  then show ?thesis using True by simp
next
  case False
  then show ?thesis by (simp add: nonCyclic_flag)
qed

lemma flagCyclic_nonCyclic_p:
  "flagCyclic_flagCyclic_children_dom (Inl (reg, ident)) \<Longrightarrow> flagCyclic reg ident = Inr reg' \<Longrightarrow> nonCyclic reg' \<subseteq> nonCyclic reg - {ident}"
  "flagCyclic_flagCyclic_children_dom (Inr (reg, root, cs)) \<Longrightarrow> flagCyclic_children reg root cs = Inr reg'' \<Longrightarrow> nonCyclic reg'' \<subseteq> nonCyclic reg"
proof (induction reg ident and reg root cs arbitrary: reg' and reg'' rule: flagCyclic_flagCyclic_children.pinduct)
  case (1 reg ident)
  from "1.prems" "1.hyps" obtain node where node: "get reg ident = Inr node"
    by (cases "get reg ident") (auto simp: flagCyclic.psimps)
  define reg1 where "reg1 = (if \<not> IsCyclic node
            then reg\<lparr>types := AList.update ident (node\<lparr>IsCyclic := True\<rparr>) (types reg)\<rparr>
            else reg)"
  have "flagCyclic_children reg1 (PackageRoot node) (InnerTypes (Type node)) = Inr reg'"
    using "1.prems" "1.hyps" node by (simp add: flagCyclic.psimps reg1_def)
  then have "nonCyclic reg' \<subseteq> nonCyclic reg1"
    using "1.IH"[OF node reg1_def] by simp
  then show ?case using nonCyclic_reg1[OF node] by (simp add: reg1_def)
next
  case (2 reg nodeRoot)
  then show ?case by (simp add: flagCyclic_children.psimps)
next
  case (3 reg nodeRoot c cs)
  from "3.prems" "3.hyps" obtain child where child: "get reg c = Inr child"
    by (cases "get reg c") (auto simp: flagCyclic_children.psimps)
  show ?case
  proof (cases "\<not> IsCyclic child \<and> nodeRoot = PackageRoot child")
    case True
    from "3.prems" "3.hyps" child True obtain regm where
      regm: "flagCyclic reg c = Inr regm" and rest: "flagCyclic_children regm nodeRoot cs = Inr reg''"
      by (cases "flagCyclic reg c") (auto simp: flagCyclic_children.psimps)
    have "nonCyclic regm \<subseteq> nonCyclic reg - {c}" using "3.IH"(1)[OF child True regm] .
    moreover have "nonCyclic reg'' \<subseteq> nonCyclic regm" using "3.IH"(2)[OF child True regm rest] .
    ultimately show ?thesis by blast
  next
    case False
    then have "flagCyclic_children reg nodeRoot cs = Inr reg''"
      using "3.prems" "3.hyps" child by (auto simp: flagCyclic_children.psimps)
    then show ?thesis using "3.IH"(3)[OF child False] by simp
  qed
qed

lemma finite_nonCyclic: "finite (nonCyclic reg)"
proof -
  have "nonCyclic reg \<subseteq> dom (map_of (types reg))" by (auto simp: nonCyclic_def)
  then show ?thesis by (rule finite_subset) (rule finite_dom_map_of)
qed

termination flagCyclic
proof (relation "inv_image (less_than <*lex*> less_than <*lex*> less_than)
    (\<lambda>x. case x of
        Inl (reg, ident) \<Rightarrow> (card (nonCyclic reg - {ident}), Suc 0, 0)
      | Inr (reg, root, cs) \<Rightarrow> (card (nonCyclic reg), 0, length cs))", goal_cases)
  case 1
  show ?case by auto
next
  case (2 reg ident node reg1)
  then show ?case using nonCyclic_reg1[of reg ident node] by simp
next
  case (3 reg nodeRoot c cs child)
  then have "c \<in> nonCyclic reg" by (auto simp: get_Inr_iff nonCyclic_def)
  then have "card (nonCyclic reg - {c}) < card (nonCyclic reg)"
    by (rule card_Diff1_less[OF finite_nonCyclic])
  then show ?case by simp
next
  case (4 reg nodeRoot c cs child reg')
  then have "nonCyclic reg' \<subseteq> nonCyclic reg" using flagCyclic_nonCyclic_p(1) by blast
  then have "card (nonCyclic reg') \<le> card (nonCyclic reg)"
    by (simp add: card_mono finite_nonCyclic)
  then show ?case by auto
next
  case (5 reg nodeRoot c cs child)
  then show ?case by simp
qed


subsection \<open>The cycle phase\<close>

text \<open>Go's \<open>strings.Join\<close>.\<close>

fun Join :: "string list \<Rightarrow> string \<Rightarrow> string" where
  "Join [] sep = []"
| "Join [x] sep = x"
| "Join (x # y # ys) sep = x @ sep @ Join (y # ys) sep"

text \<open>
  The first loop over a found cycle collects the package roots of its members (the keys of the
  \<open>map[string]bool\<close> named \<open>packageRoots\<close>, a list without repetition here) and their full names.
\<close>

fun cycleRoots :: "typeRegistry \<Rightarrow> Identifier list \<Rightarrow> string list \<times> string list
    \<Rightarrow> error + string list \<times> string list" where
  "cycleRoots reg [] acc = Inr acc"
| "cycleRoots reg (cyclicModel # rest) (roots, identifiers) =
    (case PackageRoot_id reg cyclicModel of
       Inl e \<Rightarrow> Inl e
     | Inr r \<Rightarrow> cycleRoots reg rest
                 (List.insert r roots, identifiers @ [FullName cyclicModel]))"

text \<open>The second loop flags every member of the cycle.\<close>

fun flagCycle :: "typeRegistry \<Rightarrow> Identifier list \<Rightarrow> error + typeRegistry" where
  "flagCycle reg [] = Inr reg"
| "flagCycle reg (c # cs) =
    (case flagCyclic reg c of Inl e \<Rightarrow> Inl e | Inr reg' \<Rightarrow> flagCycle reg' cs)"

text \<open>
  The inner \<open>for { ... }\<close> of \<open>flagCyclicDependencies\<close> has no bound of its own: it runs until
  \<open>findCycle\<close> finds nothing. It is a partial function; \<open>None\<close> is the loop that never ends.
\<close>

partial_function (option) flagCyclicDependencies_loop ::
    "typeRegistry \<Rightarrow> Identifier \<Rightarrow> (error + typeRegistry) option" where
  "flagCyclicDependencies_loop reg ident =
    (case findCycle reg ident [] of
       Inl e \<Rightarrow> Some (Inl e)
     | Inr cycle \<Rightarrow>
         if length cycle > 0 then
           (case cycleRoots reg cycle ([], []) of
              Inl e \<Rightarrow> Some (Inl e)
            | Inr (roots, identifiers) \<Rightarrow>
                (let path = Join identifiers '' -> '' in
                 if length roots > 1 then Some (Inl (CrossPackageCycle path))
                 else (case flagCycle reg cycle of
                         Inl e \<Rightarrow> Some (Inl e)
                       | Inr reg' \<Rightarrow> flagCyclicDependencies_loop reg' ident)))
         else Some (Inr reg))"

declare flagCyclicDependencies_loop.simps [code]

fun flagCyclicDependencies_from ::
    "typeRegistry \<Rightarrow> Identifier list \<Rightarrow> (error + typeRegistry) option" where
  "flagCyclicDependencies_from reg [] = Some (Inr reg)"
| "flagCyclicDependencies_from reg (ident # idents) =
    (case flagCyclicDependencies_loop reg ident of
       None \<Rightarrow> None
     | Some (Inl e) \<Rightarrow> Some (Inl e)
     | Some (Inr reg') \<Rightarrow> flagCyclicDependencies_from reg' idents)"

definition flagCyclicDependencies :: "typeRegistry \<Rightarrow> (error + typeRegistry) option" where
  "flagCyclicDependencies reg = flagCyclicDependencies_from reg (map fst (types reg))"

subsection \<open>Completeness validation\<close>

fun validateDeps :: "typeRegistry \<Rightarrow> Identifier \<Rightarrow> Identifier list \<Rightarrow> error option" where
  "validateDeps reg ident [] = None"
| "validateDeps reg ident (dep # deps) =
    (case map_of (types reg) dep of
       None \<Rightarrow> Some (UnknownDependency (FullName ident) (FullName dep))
     | Some _ \<Rightarrow> validateDeps reg ident deps)"

fun validateTypes :: "typeRegistry \<Rightarrow> (Identifier \<times> registeredType) list \<Rightarrow> error option" where
  "validateTypes reg [] = None"
| "validateTypes reg ((ident, rt) # rest) =
    (case validateDeps reg ident (InnerTypes (Type rt)) of
       Some e \<Rightarrow> Some e
     | None \<Rightarrow> validateTypes reg rest)"

definition validateAllTypesSatisfied :: "typeRegistry \<Rightarrow> error option" where
  "validateAllTypesSatisfied reg = validateTypes reg (types reg)"

subsection \<open>Name remediation\<close>

text \<open>
  Go's \<open>strings.ToLower\<close>, \<open>strings.ToUpper\<close> and \<open>strings.LastIndex\<close>. A string is its
  sequence of bytes. On a string of ASCII bytes (all below \<open>0x80\<close>) the case mappings are
  those of the ASCII letters, which is what Go does for such a string. On any other string Go
  decodes UTF-8 and applies the case tables of its package \<open>unicode\<close>, writing the replacement
  character \<open>U+FFFD\<close> (the bytes \<open>EF BF BD\<close>) for a byte that is not valid UTF-8. The tables
  are not part of the repository: the result on a string with a byte from \<open>0x80\<close> on is left
  unspecified, except for \<open>ToUpper\<close> of a single such byte, which is the replacement character
  (the case of \<open>ExportedIdentifier\<close>, which upper-cases one byte). What is proved about names is
  stated for ASCII names. \<open>LastIndex\<close> is \<open>-1\<close> when the substring does not occur.
\<close>

definition isASCII :: "string \<Rightarrow> bool" where
  "isASCII s = list_all (\<lambda>c. of_char c < (128::nat)) s"

definition ToLower :: "string \<Rightarrow> string" where
  "ToLower s =
    (if isASCII s then
       map (\<lambda>c. case map_of (zip ''ABCDEFGHIJKLMNOPQRSTUVWXYZ''
                                 ''abcdefghijklmnopqrstuvwxyz'') c of
                   Some l \<Rightarrow> l | None \<Rightarrow> c) s
     else undefined)"

definition ToUpper :: "string \<Rightarrow> string" where
  "ToUpper s =
    (if isASCII s then
       map (\<lambda>c. case map_of (zip ''abcdefghijklmnopqrstuvwxyz''
                                 ''ABCDEFGHIJKLMNOPQRSTUVWXYZ'') c of
                   Some u \<Rightarrow> u | None \<Rightarrow> c) s
     else if length s = 1 then [CHR 0xEF, CHR 0xBF, CHR 0xBD]
     else undefined)"

fun LastIndex_from :: "string \<Rightarrow> string \<Rightarrow> nat \<Rightarrow> int" where
  "LastIndex_from s substr 0 = - 1"
| "LastIndex_from s substr (Suc i) =
    (if take (length substr) (drop i s) = substr then int i else LastIndex_from s substr i)"

definition LastIndex :: "string \<Rightarrow> string \<Rightarrow> int" where
  "LastIndex s substr = LastIndex_from s substr (Suc (length s) - length substr)"

text \<open>\<open>ExportedIdentifier\<close> (codefile.go) slices \<open>identifier[:1]\<close>, which panics on the empty string.\<close>

definition ExportedIdentifier :: "string \<Rightarrow> error + string" where
  "ExportedIdentifier identifier =
    (if length identifier < 1 then Inl PanicSliceBounds
     else Inr (ToUpper (take 1 identifier) @ drop 1 identifier))"

text \<open>The loop that sorts the cyclic types of one package root by their lower-cased name.\<close>

fun groupCyclic :: "typeRegistry \<Rightarrow> Identifier list \<Rightarrow> (string \<times> IdentifierSet) list
    \<Rightarrow> error + (string \<times> IdentifierSet) list" where
  "groupCyclic reg [] conflictingTypes = Inr conflictingTypes"
| "groupCyclic reg (ident # idents) conflictingTypes =
    (case IsCyclic_reg reg ident of
       Inl e \<Rightarrow> Inl e
     | Inr cyclic \<Rightarrow>
         if cyclic then
           (let name = ToLower (Name ident);
                ct1 = (case map_of conflictingTypes name of
                         None \<Rightarrow> AList.update name [] conflictingTypes
                       | Some _ \<Rightarrow> conflictingTypes);
                members = (case map_of ct1 name of None \<Rightarrow> [] | Some s \<Rightarrow> s)
            in groupCyclic reg idents (AList.update name (Add_set members ident) ct1))
         else groupCyclic reg idents conflictingTypes)"

text \<open>The loop over one group \<open>v\<close>, with the map \<open>overrides\<close> that starts empty for each group.\<close>

fun renameGroup :: "typeRegistry \<Rightarrow> Identifier list \<Rightarrow> (string \<times> Identifier) list
    \<Rightarrow> error + typeRegistry" where
  "renameGroup reg [] overrides = Inr reg"
| "renameGroup reg (ident # idents) overrides =
    (case ExportedIdentifier
            (drop (nat (LastIndex (Namespace ident) ''.'' + 1)) (Namespace ident) @ Name ident) of
       Inl e \<Rightarrow> Inl e
     | Inr override \<Rightarrow>
         (case get reg ident of
            Inl e \<Rightarrow> Inl e
          | Inr rt \<Rightarrow>
              (let reg1 = reg\<lparr>types :=
                            AList.update ident (rt\<lparr>TypeNameOverride := override\<rparr>) (types reg)\<rparr>
               in case map_of overrides override of
                    Some conflict \<Rightarrow>
                      Inl (RenameConflict (FullName ident) (Namespace ident) override
                             (FullName conflict))
                  | None \<Rightarrow> renameGroup reg1 idents (AList.update override ident overrides))))"

fun renameGroups :: "typeRegistry \<Rightarrow> (string \<times> IdentifierSet) list \<Rightarrow> error + typeRegistry" where
  "renameGroups reg [] = Inr reg"
| "renameGroups reg ((name, v) # rest) =
    (if length v = 1 then renameGroups reg rest
     else (case renameGroup reg v [] of
             Inl e \<Rightarrow> Inl e
           | Inr reg' \<Rightarrow> renameGroups reg' rest))"

fun remediateRoots :: "typeRegistry \<Rightarrow> (string \<times> IdentifierSet) list \<Rightarrow> error + typeRegistry" where
  "remediateRoots reg [] = Inr reg"
| "remediateRoots reg ((root, members) # rest) =
    (case groupCyclic reg members [] of
       Inl e \<Rightarrow> Inl e
     | Inr conflictingTypes \<Rightarrow>
         (case renameGroups reg conflictingTypes of
            Inl e \<Rightarrow> Inl e
          | Inr reg' \<Rightarrow> remediateRoots reg' rest))"

definition remediateConflictingNames :: "typeRegistry \<Rightarrow> error + typeRegistry" where
  "remediateConflictingNames reg = remediateRoots reg (packageRoots reg)"

subsection \<open>Finalize\<close>

text \<open>
  The result is \<open>None\<close> when the cycle phase never ends, \<open>Some (Inl e)\<close> when a stage fails or
  panics, and \<open>Some (Inr reg')\<close> with the final registry otherwise.
\<close>

definition Finalize :: "typeRegistry \<Rightarrow> (error + typeRegistry) option" where
  "Finalize reg =
    (case validateAllTypesSatisfied reg of
       Some e \<Rightarrow> Some (Inl e)
     | None \<Rightarrow>
         (case flagCyclicDependencies reg of
            None \<Rightarrow> None
          | Some (Inl e) \<Rightarrow> Some (Inl e)
          | Some (Inr reg1) \<Rightarrow>
              (case remediateConflictingNames reg1 of
                 Inl e \<Rightarrow> Some (Inl e)
               | Inr reg2 \<Rightarrow> Some (Inr reg2))))"

section \<open>The generated codec of ExtensionSchemaAnnotation\<close>

subsection \<open>The reader and the writer\<close>

text \<open>
  Modelled from the spec: the packages \<open>restlicodec\<close> and \<open>patch\<close> are not among the files at
  hand. The spec describes the wire form as compact keyed records and the reader as one that
  "reads a keyed structure; for every key, dispatches to the matching field setter or, if
  unrecognized, skips the value without error", after which "required fields not yet marked
  found must cause a fatal, field-naming error". A wire value is a string, a keyed structure or
  an array; the entries of a keyed structure are in the order in which the reader meets them.

  A reader is a cursor in the input: it stands before a value that is still to be read, or the
  value has been consumed. A read consumes the value at the cursor, and fails when the value is
  of another shape. The generated code returns every error of the reader as it is, so an
  operation of the reader gives an error, or its result and the reader after it.
\<close>

datatype wire = WString string | WMap "(string \<times> wire) list" | WArray "wire list"

datatype Reader = Unread wire | Consumed

datatype codecError =
    DeserializationError
  | MissingRequiredField string
  | PatchConflict string string

text \<open>Modelled from the spec: \<open>Reader.ReadString\<close> reads a string value.\<close>

definition ReadString :: "Reader \<Rightarrow> codecError + string \<times> Reader" where
  "ReadString reader =
    (case reader of
       Unread v \<Rightarrow> (case v of WString s \<Rightarrow> Inr (s, Consumed) | _ \<Rightarrow> Inl DeserializationError)
     | Consumed \<Rightarrow> Inl DeserializationError)"

text \<open>
  Modelled from the spec: \<open>Reader.Skip\<close> "skips the value without error": it consumes the value
  at the cursor, whatever its shape.
\<close>

definition Skip :: "Reader \<Rightarrow> codecError + Reader" where
  "Skip reader =
    (case reader of Unread v \<Rightarrow> Inr Consumed | Consumed \<Rightarrow> Inl DeserializationError)"

text \<open>
  The callbacks that the generated code passes to the reader assign to the fields of the
  receiver; in the model a callback takes the value decoded so far and returns the new one.
  \<open>readEntries\<close> calls the callback on the entries in order, with the cursor before the value
  of the entry, and stops at the first error. After the callback the reader goes on behind
  the value: a callback that leaves the value unread makes the reader fail.
\<close>

fun readEntries :: "('a \<Rightarrow> Reader \<Rightarrow> string \<Rightarrow> codecError + 'a \<times> Reader) \<Rightarrow> 'a
    \<Rightarrow> (string \<times> wire) list \<Rightarrow> codecError + 'a" where
  "readEntries f a [] = Inr a"
| "readEntries f a ((key, v) # rest) =
    (case f a (Unread v) key of
       Inl err \<Rightarrow> Inl err
     | Inr (a', reader) \<Rightarrow>
         (case reader of
            Consumed \<Rightarrow> readEntries f a' rest
          | Unread _ \<Rightarrow> Inl DeserializationError))"

fun readItems :: "('a \<Rightarrow> Reader \<Rightarrow> codecError + 'a \<times> Reader) \<Rightarrow> 'a \<Rightarrow> wire list
    \<Rightarrow> codecError + 'a" where
  "readItems f a [] = Inr a"
| "readItems f a (v # rest) =
    (case f a (Unread v) of
       Inl err \<Rightarrow> Inl err
     | Inr (a', reader) \<Rightarrow>
         (case reader of
            Consumed \<Rightarrow> readItems f a' rest
          | Unread _ \<Rightarrow> Inl DeserializationError))"

text \<open>Modelled from the spec: \<open>Reader.ReadMap\<close> calls the callback for every key of a keyed structure.\<close>

definition ReadMap :: "Reader \<Rightarrow> ('a \<Rightarrow> Reader \<Rightarrow> string \<Rightarrow> codecError + 'a \<times> Reader) \<Rightarrow> 'a
    \<Rightarrow> codecError + 'a \<times> Reader" where
  "ReadMap reader f a =
    (case reader of
       Unread v \<Rightarrow>
         (case v of
            WMap kvs \<Rightarrow>
              (case readEntries f a kvs of Inl err \<Rightarrow> Inl err | Inr a' \<Rightarrow> Inr (a', Consumed))
          | _ \<Rightarrow> Inl DeserializationError)
     | Consumed \<Rightarrow> Inl DeserializationError)"

text \<open>
  Modelled from the spec: \<open>Reader.ReadRecord\<close> reads the keyed structure as \<open>ReadMap\<close> does and
  marks every key it has read as found; after the last key, the first required field that is
  not marked is the error.
\<close>

definition ReadRecord :: "Reader \<Rightarrow> string list
    \<Rightarrow> ('a \<Rightarrow> Reader \<Rightarrow> string \<Rightarrow> codecError + 'a \<times> Reader) \<Rightarrow> 'a
    \<Rightarrow> codecError + 'a \<times> Reader" where
  "ReadRecord reader requiredFields f a =
    (case ReadMap reader
            (\<lambda>(a, found) reader field.
               case f a reader field of
                 Inl err \<Rightarrow> Inl err
               | Inr (a', reader') \<Rightarrow> Inr ((a', field # found), reader'))
            (a, []) of
       Inl err \<Rightarrow> Inl err
     | Inr ((a', found), reader') \<Rightarrow>
         (case filter (\<lambda>r. r \<notin> set found) requiredFields of
            [] \<Rightarrow> Inr (a', reader')
          | r # _ \<Rightarrow> Inl (MissingRequiredField r)))"

text \<open>Modelled from the spec: \<open>Reader.ReadArray\<close> calls the callback for every item of an array.\<close>

definition ReadArray :: "Reader \<Rightarrow> ('a \<Rightarrow> Reader \<Rightarrow> codecError + 'a \<times> Reader) \<Rightarrow> 'a
    \<Rightarrow> codecError + 'a \<times> Reader" where
  "ReadArray reader f a =
    (case reader of
       Unread v \<Rightarrow>
         (case v of
            WArray vs \<Rightarrow>
              (case readItems f a vs of Inl err \<Rightarrow> Inl err | Inr a' \<Rightarrow> Inr (a', Consumed))
          | _ \<Rightarrow> Inl DeserializationError)
     | Consumed \<Rightarrow> Inl DeserializationError)"

text \<open>
  Modelled from the spec: \<open>restlicodec.ReadMap(reader, Reader.ReadString)\<close> reads a keyed
  structure of strings into a Go map (an association list here), and
  \<open>restlicodec.WriteMap(w, m, WriteString)\<close> writes one.
\<close>

definition ReadMap_strings :: "Reader \<Rightarrow> codecError + (string \<times> string) list \<times> Reader" where
  "ReadMap_strings reader =
    ReadMap reader
      (\<lambda>m reader key.
         case ReadString reader of
           Inl err \<Rightarrow> Inl err
         | Inr (s, reader') \<Rightarrow> Inr (AList.update key s m, reader')) []"

definition WriteMap_strings :: "(string \<times> string) list \<Rightarrow> codecError + wire" where
  "WriteMap_strings m = Inr (WMap (map (\<lambda>(k, s). (k, WString s)) m))"

subsection \<open>The record\<close>

record ExtensionSchemaAnnotation =
  Using :: "string option"
  Params :: "(string \<times> string) list option"
  VersionSuffix :: "string option"

text \<open>\<open>restlicodec.NewRequiredFields()\<close> without arguments: no field is required.\<close>

definition ExtensionSchemaAnnotationRequiredFields :: "string list" where
  "ExtensionSchemaAnnotationRequiredFields = []"

text \<open>
  \<open>UnmarshalField\<close> returns the record after the assignment, \<open>found\<close> and the reader, or the
  error of the read. (In the source the receiver has a fresh, empty field when the read fails;
  every caller returns the error at once, and the model keeps the error only.)
\<close>

definition UnmarshalField :: "ExtensionSchemaAnnotation \<Rightarrow> Reader \<Rightarrow> string
    \<Rightarrow> codecError + (ExtensionSchemaAnnotation \<times> bool) \<times> Reader" where
  "UnmarshalField e reader field =
    (if field = ''using'' then
       (case ReadString reader of
          Inl err \<Rightarrow> Inl err
        | Inr (s, reader') \<Rightarrow> Inr ((e\<lparr>Using := Some s\<rparr>, True), reader'))
     else if field = ''params'' then
       (case ReadMap_strings reader of
          Inl err \<Rightarrow> Inl err
        | Inr (m, reader') \<Rightarrow> Inr ((e\<lparr>Params := Some m\<rparr>, True), reader'))
     else if field = ''versionSuffix'' then
       (case ReadString reader of
          Inl err \<Rightarrow> Inl err
        | Inr (s, reader') \<Rightarrow> Inr ((e\<lparr>VersionSuffix := Some s\<rparr>, True), reader'))
     else Inr ((e, False), reader))"

text \<open>The callback that \<open>UnmarshalRestLi\<close> passes to \<open>ReadRecord\<close>.\<close>

definition UnmarshalRestLi_callback :: "ExtensionSchemaAnnotation \<Rightarrow> Reader \<Rightarrow> string
    \<Rightarrow> codecError + ExtensionSchemaAnnotation \<times> Reader" where
  "UnmarshalRestLi_callback e reader field =
    (case UnmarshalField e reader field of
       Inl err \<Rightarrow> Inl err
     | Inr ((e', found), reader') \<Rightarrow>
         if \<not> found then
           (case Skip reader' of Inl err \<Rightarrow> Inl err | Inr reader'' \<Rightarrow> Inr (e', reader''))
         else Inr (e', reader'))"

definition UnmarshalRestLi :: "ExtensionSchemaAnnotation \<Rightarrow> Reader
    \<Rightarrow> codecError + ExtensionSchemaAnnotation \<times> Reader" where
  "UnmarshalRestLi e reader =
     ReadRecord reader ExtensionSchemaAnnotationRequiredFields UnmarshalRestLi_callback e"

subsection \<open>The partial update\<close>

record ExtensionSchemaAnnotation_PartialUpdate_Delete_Fields =
  Delete_Using :: bool
  Delete_Params :: bool
  Delete_VersionSuffix :: bool

record ExtensionSchemaAnnotation_PartialUpdate_Set_Fields =
  Set_Using :: "string option"
  Set_Params :: "(string \<times> string) list option"
  Set_VersionSuffix :: "string option"

record ExtensionSchemaAnnotation_PartialUpdate =
  Delete_Fields :: ExtensionSchemaAnnotation_PartialUpdate_Delete_Fields
  Set_Fields :: ExtensionSchemaAnnotation_PartialUpdate_Set_Fields

definition Delete_MarshalRestLi :: "ExtensionSchemaAnnotation_PartialUpdate_Delete_Fields
    \<Rightarrow> codecError + wire" where
  "Delete_MarshalRestLi e =
     Inr (WArray ((if Delete_Params e then [WString ''params''] else []) @
                  (if Delete_Using e then [WString ''using''] else []) @
                  (if Delete_VersionSuffix e then [WString ''versionSuffix''] else [])))"

text \<open>The callback that \<open>Delete_Fields.UnmarshalRestLi\<close> passes to \<open>ReadArray\<close>.\<close>

definition Delete_UnmarshalRestLi_callback :: "ExtensionSchemaAnnotation_PartialUpdate_Delete_Fields
    \<Rightarrow> Reader \<Rightarrow> codecError + ExtensionSchemaAnnotation_PartialUpdate_Delete_Fields \<times> Reader" where
  "Delete_UnmarshalRestLi_callback e reader =
    (case ReadString reader of
       Inl err \<Rightarrow> Inl err
     | Inr (field, reader') \<Rightarrow>
         Inr (if field = ''using'' then e\<lparr>Delete_Using := True\<rparr>
              else if field = ''params'' then e\<lparr>Delete_Params := True\<rparr>
              else if field = ''versionSuffix'' then e\<lparr>Delete_VersionSuffix := True\<rparr>
              else e, reader'))"

definition Delete_UnmarshalRestLi :: "ExtensionSchemaAnnotation_PartialUpdate_Delete_Fields \<Rightarrow> Reader
    \<Rightarrow> codecError + ExtensionSchemaAnnotation_PartialUpdate_Delete_Fields \<times> Reader" where
  "Delete_UnmarshalRestLi e reader = ReadArray reader Delete_UnmarshalRestLi_callback e"

definition Set_MarshalFields :: "ExtensionSchemaAnnotation_PartialUpdate_Set_Fields
    \<Rightarrow> codecError + (string \<times> wire) list" where
  "Set_MarshalFields e =
    (case (case Set_Params e of
             None \<Rightarrow> Inr []
           | Some m \<Rightarrow> (case WriteMap_strings m of
                          Inl err \<Rightarrow> Inl err | Inr w \<Rightarrow> Inr [(''params'', w)])) of
       Inl err \<Rightarrow> Inl err
     | Inr params \<Rightarrow>
         Inr (params @
              (case Set_Using e of None \<Rightarrow> [] | Some s \<Rightarrow> [(''using'', WString s)]) @
              (case Set_VersionSuffix e of None \<Rightarrow> [] | Some s \<Rightarrow> [(''versionSuffix'', WString s)])))"

definition Set_MarshalRestLi :: "ExtensionSchemaAnnotation_PartialUpdate_Set_Fields
    \<Rightarrow> codecError + wire" where
  "Set_MarshalRestLi e =
    (case Set_MarshalFields e of Inl err \<Rightarrow> Inl err | Inr entries \<Rightarrow> Inr (WMap entries))"

definition ExtensionSchemaAnnotation_PartialUpdate_Set_FieldsRequiredFields :: "string list" where
  "ExtensionSchemaAnnotation_PartialUpdate_Set_FieldsRequiredFields = []"

definition Set_UnmarshalField :: "ExtensionSchemaAnnotation_PartialUpdate_Set_Fields \<Rightarrow> Reader \<Rightarrow> string
    \<Rightarrow> codecError + (ExtensionSchemaAnnotation_PartialUpdate_Set_Fields \<times> bool) \<times> Reader" where
  "Set_UnmarshalField e reader field =
    (if field = ''using'' then
       (case ReadString reader of
          Inl err \<Rightarrow> Inl err
        | Inr (s, reader') \<Rightarrow> Inr ((e\<lparr>Set_Using := Some s\<rparr>, True), reader'))
     else if field = ''params'' then
       (case ReadMap_strings reader of
          Inl err \<Rightarrow> Inl err
        | Inr (m, reader') \<Rightarrow> Inr ((e\<lparr>Set_Params := Some m\<rparr>, True), reader'))
     else if field = ''versionSuffix'' then
       (case ReadString reader of
          Inl err \<Rightarrow> Inl err
        | Inr (s, reader') \<Rightarrow> Inr ((e\<lparr>Set_VersionSuffix := Some s\<rparr>, True), reader'))
     else Inr ((e, False), reader))"

text \<open>The callback that \<open>Set_Fields.UnmarshalRestLi\<close> passes to \<open>ReadRecord\<close>.\<close>

definition Set_UnmarshalRestLi_callback :: "ExtensionSchemaAnnotation_PartialUpdate_Set_Fields
    \<Rightarrow> Reader \<Rightarrow> string
    \<Rightarrow> codecError + ExtensionSchemaAnnotation_PartialUpdate_Set_Fields \<times> Reader" where
  "Set_UnmarshalRestLi_callback e reader field =
    (case Set_UnmarshalField e reader field of
       Inl err \<Rightarrow> Inl err
     | Inr ((e', found), reader') \<Rightarrow>
         if \<not> found then
           (case Skip reader' of Inl err \<Rightarrow> Inl err | Inr reader'' \<Rightarrow> Inr (e', reader''))
         else Inr (e', reader'))"

definition Set_UnmarshalRestLi :: "ExtensionSchemaAnnotation_PartialUpdate_Set_Fields \<Rightarrow> Reader
    \<Rightarrow> codecError + ExtensionSchemaAnnotation_PartialUpdate_Set_Fields \<times> Reader" where
  "Set_UnmarshalRestLi e reader =
     ReadRecord reader ExtensionSchemaAnnotation_PartialUpdate_Set_FieldsRequiredFields
       Set_UnmarshalRestLi_callback e"

text \<open>
  Modelled from the spec: \<open>patch.PartialUpdateFieldChecker\<close> and its method \<open>CheckField\<close> are not
  among the files at hand. The spec: "a field must not appear in both \<open>Delete\<close> and \<open>Set\<close>
  simultaneously - violating this is a fatal validation error naming the record type and
  field. Only non-empty sections are emitted". The checker records whether some field is deleted
  and whether some field is set. The first argument of \<open>CheckField\<close> (the writer or the reader)
  is left out; the last one is \<open>false\<close> at every call, and the spec says nothing of it.
\<close>

record PartialUpdateFieldChecker =
  RecordType :: string
  HasDeletes :: bool
  HasSets :: bool

definition CheckField :: "PartialUpdateFieldChecker \<Rightarrow> string \<Rightarrow> bool \<Rightarrow> bool \<Rightarrow> bool
    \<Rightarrow> codecError + PartialUpdateFieldChecker" where
  "CheckField checker fieldName isDeleteSet isSetSet isPartialUpdateSet =
    (if isDeleteSet \<and> isSetSet then Inl (PatchConflict (RecordType checker) fieldName)
     else Inr (checker\<lparr>HasDeletes := HasDeletes checker \<or> isDeleteSet,
                       HasSets := HasSets checker \<or> isSetSet\<rparr>))"

text \<open>The three calls of \<open>CheckField\<close>, the same in \<open>MarshalRestLiPatch\<close> and \<open>UnmarshalRestLiPatch\<close>.\<close>

definition checkFields :: "ExtensionSchemaAnnotation_PartialUpdate
    \<Rightarrow> codecError + PartialUpdateFieldChecker" where
  "checkFields e =
    (let checker = \<lparr>RecordType = ''com.linkedin.restli.common.ExtensionSchemaAnnotation'',
                    HasDeletes = False, HasSets = False\<rparr> in
     case CheckField checker ''using'' (Delete_Using (Delete_Fields e))
            (Set_Using (Set_Fields e) \<noteq> None) False of
       Inl err \<Rightarrow> Inl err
     | Inr checker \<Rightarrow>
    (case CheckField checker ''params'' (Delete_Params (Delete_Fields e))
            (Set_Params (Set_Fields e) \<noteq> None) False of
       Inl err \<Rightarrow> Inl err
     | Inr checker \<Rightarrow>
    (case CheckField checker ''versionSuffix'' (Delete_VersionSuffix (Delete_Fields e))
            (Set_VersionSuffix (Set_Fields e) \<noteq> None) False of
       Inl err \<Rightarrow> Inl err
     | Inr checker \<Rightarrow> Inr checker)))"

text \<open>
  \<open>MarshalRestLiPatch\<close> writes a keyed structure: the key \<open>$delete\<close> when the checker has seen a
  deletion, then the key \<open>$set\<close> when it has seen a set field.
\<close>

definition MarshalRestLiPatch :: "ExtensionSchemaAnnotation_PartialUpdate \<Rightarrow> codecError + wire" where
  "MarshalRestLiPatch e =
    (case checkFields e of
       Inl err \<Rightarrow> Inl err
     | Inr checker \<Rightarrow>
         (case (if HasDeletes checker
                then (case Delete_MarshalRestLi (Delete_Fields e) of
                        Inl err \<Rightarrow> Inl err | Inr w \<Rightarrow> Inr [(''$delete'', w)])
                else Inr []) of
            Inl err \<Rightarrow> Inl err
          | Inr deletes \<Rightarrow>
              (case (if HasSets checker
                     then (case Set_MarshalRestLi (Set_Fields e) of
                             Inl err \<Rightarrow> Inl err | Inr w \<Rightarrow> Inr [(''$set'', w)])
                     else Inr []) of
                 Inl err \<Rightarrow> Inl err
               | Inr sets \<Rightarrow> Inr (WMap (deletes @ sets)))))"

text \<open>The callback that \<open>UnmarshalRestLiPatch\<close> passes to \<open>ReadMap\<close>.\<close>

definition UnmarshalRestLiPatch_callback :: "ExtensionSchemaAnnotation_PartialUpdate \<Rightarrow> Reader \<Rightarrow> string
    \<Rightarrow> codecError + ExtensionSchemaAnnotation_PartialUpdate \<times> Reader" where
  "UnmarshalRestLiPatch_callback e reader key =
    (if key = ''$delete'' then
       (case Delete_UnmarshalRestLi (Delete_Fields e) reader of
          Inl err \<Rightarrow> Inl err
        | Inr (d, reader') \<Rightarrow> Inr (e\<lparr>Delete_Fields := d\<rparr>, reader'))
     else if key = ''$set'' then
       (case Set_UnmarshalRestLi (Set_Fields e) reader of
          Inl err \<Rightarrow> Inl err
        | Inr (s, reader') \<Rightarrow> Inr (e\<lparr>Set_Fields := s\<rparr>, reader'))
     else (case Skip reader of Inl err \<Rightarrow> Inl err | Inr reader' \<Rightarrow> Inr (e, reader')))"

definition UnmarshalRestLiPatch :: "ExtensionSchemaAnnotation_PartialUpdate \<Rightarrow> Reader
    \<Rightarrow> codecError + ExtensionSchemaAnnotation_PartialUpdate \<times> Reader" where
  "UnmarshalRestLiPatch e reader =
    (case ReadMap reader UnmarshalRestLiPatch_callback e of
       Inl err \<Rightarrow> Inl err
     | Inr (e', reader') \<Rightarrow>
         (case checkFields e' of Inl err \<Rightarrow> Inl err | Inr _ \<Rightarrow> Inr (e', reader')))"

section \<open>Example registries\<close>

text \<open>
  The scenario of the spec: \<open>A\<close> and \<open>B\<close> of namespace \<open>pkg1\<close> refer to each other and are
  registered in package root \<open>pkg1\<close>.
\<close>

definition idA :: Identifier where "idA = \<lparr>Name = ''A'', Namespace = ''pkg1''\<rparr>"

definition idB :: Identifier where "idB = \<lparr>Name = ''B'', Namespace = ''pkg1''\<rparr>"

definition tyA :: ComplexType where
  "tyA = \<lparr>GetIdentifier = idA, GetSourceFile = [], InnerTypes = [idB]\<rparr>"

definition tyB :: ComplexType where
  "tyB = \<lparr>GetIdentifier = idB, GetSourceFile = [], InnerTypes = [idA]\<rparr>"

definition regA :: typeRegistry where
  "regA = fst (Register TypeRegistry tyA ''pkg1'')"

definition regAB :: typeRegistry where
  "regAB = fst (Register regA tyB ''pkg1'')"

text \<open>
  The second scenario of the spec: \<open>B\<close> moves to namespace \<open>pkg2\<close> and package root \<open>pkg2\<close>,
  \<open>A\<close> stays in \<open>pkg1\<close>, and the two still refer to each other.
\<close>

definition idB2 :: Identifier where "idB2 = \<lparr>Name = ''B'', Namespace = ''pkg2''\<rparr>"

definition tyA2 :: ComplexType where
  "tyA2 = \<lparr>GetIdentifier = idA, GetSourceFile = [], InnerTypes = [idB2]\<rparr>"

definition tyB2 :: ComplexType where
  "tyB2 = \<lparr>GetIdentifier = idB2, GetSourceFile = [], InnerTypes = [idA]\<rparr>"

definition regCross :: typeRegistry where
  "regCross = fst (Register (fst (Register TypeRegistry tyA2 ''pkg1'')) tyB2 ''pkg2'')"

text \<open>
  A cycle that is tolerated: \<open>A\<close> of namespace \<open>pkg1\<close> and \<open>B\<close> of namespace \<open>pkg2\<close> refer to
  each other and both belong to the package root \<open>root\<close>. \<open>regOneRootFlagged\<close> is this registry
  with both flags set.
\<close>

definition regOneRoot :: typeRegistry where
  "regOneRoot = fst (Register (fst (Register TypeRegistry tyA2 ''root'')) tyB2 ''root'')"

definition regOneRootFlagged :: typeRegistry where
  "regOneRootFlagged =
     regOneRoot\<lparr>types := map (\<lambda>p. (fst p, (snd p)\<lparr>IsCyclic := True\<rparr>)) (types regOneRoot)\<rparr>"

text \<open>
  Registries for name remediation, all types in the package root \<open>r\<close>. In \<open>regGroups\<close>,
  \<open>a.x.Foo\<close> and \<open>b.y.foo\<close> refer to each other, and so do \<open>c.xF.oo\<close> and \<open>d.z.OO\<close>; in
  \<open>regCollide\<close>, \<open>a.x.foo\<close> and \<open>b.x.foo\<close> refer to each other. The \<open>Flagged\<close> registries are
  what the cycle phase makes of them, \<open>regGroupsRenamed\<close> what remediation then makes of
  \<open>regGroupsFlagged\<close>.
\<close>

definition refType :: "Identifier \<Rightarrow> Identifier list \<Rightarrow> ComplexType" where
  "refType i inner = \<lparr>GetIdentifier = i, GetSourceFile = [], InnerTypes = inner\<rparr>"

fun registerAll :: "typeRegistry \<Rightarrow> (ComplexType \<times> string) list \<Rightarrow> typeRegistry" where
  "registerAll reg [] = reg"
| "registerAll reg ((t, root) # rest) = registerAll (fst (Register reg t root)) rest"

definition flagAll :: "typeRegistry \<Rightarrow> typeRegistry" where
  "flagAll reg = reg\<lparr>types := map (\<lambda>p. (fst p, (snd p)\<lparr>IsCyclic := True\<rparr>)) (types reg)\<rparr>"

definition idFoo1 :: Identifier where "idFoo1 = \<lparr>Name = ''Foo'', Namespace = ''a.x''\<rparr>"

definition idFoo2 :: Identifier where "idFoo2 = \<lparr>Name = ''foo'', Namespace = ''b.y''\<rparr>"

definition idOo1 :: Identifier where "idOo1 = \<lparr>Name = ''oo'', Namespace = ''c.xF''\<rparr>"

definition idOo2 :: Identifier where "idOo2 = \<lparr>Name = ''OO'', Namespace = ''d.z''\<rparr>"

definition regGroups :: typeRegistry where
  "regGroups = registerAll TypeRegistry
     [(refType idFoo1 [idFoo2], ''r''), (refType idFoo2 [idFoo1], ''r''),
      (refType idOo1 [idOo2], ''r''), (refType idOo2 [idOo1], ''r'')]"

definition regGroupsFlagged :: typeRegistry where
  "regGroupsFlagged = flagAll regGroups"

definition regGroupsRenamed :: typeRegistry where
  "regGroupsRenamed =
     regGroupsFlagged\<lparr>types :=
       map (\<lambda>p. (fst p, (snd p)\<lparr>TypeNameOverride :=
                   (if fst p = idFoo1 then ''XFoo'' else if fst p = idFoo2 then ''Yfoo''
                    else if fst p = idOo1 then ''XFoo'' else ''ZOO'')\<rparr>))
           (types regGroupsFlagged)\<rparr>"

definition idClash1 :: Identifier where "idClash1 = \<lparr>Name = ''foo'', Namespace = ''a.x''\<rparr>"

definition idClash2 :: Identifier where "idClash2 = \<lparr>Name = ''foo'', Namespace = ''b.x''\<rparr>"

definition regCollide :: typeRegistry where
  "regCollide = registerAll TypeRegistry
     [(refType idClash1 [idClash2], ''r''), (refType idClash2 [idClash1], ''r'')]"

definition regCollideFlagged :: typeRegistry where
  "regCollideFlagged = flagAll regCollide"






subsection \<open>Inputs of the codec\<close>

text \<open>The zero value of the record, and an input with two recognized keys and one that is not.\<close>

definition recordZero :: ExtensionSchemaAnnotation where
  "recordZero = \<lparr>Using = None, Params = None, VersionSuffix = None\<rparr>"

definition inputEntries :: "(string \<times> wire) list" where
  "inputEntries =
    [(''using'', WString ''get_all''), (''extra'', WArray [WString ''x'']),
     (''params'', WMap [(''a'', WString ''b'')])]"

text \<open>
  Patches: the zero value; one that deletes \<open>using\<close> and sets it; one that deletes \<open>params\<close> and
  sets \<open>using\<close>. An input that lists \<open>params\<close> for deletion and sets it.
\<close>

definition patchZero :: ExtensionSchemaAnnotation_PartialUpdate where
  "patchZero =
     \<lparr>Delete_Fields = \<lparr>Delete_Using = False, Delete_Params = False, Delete_VersionSuffix = False\<rparr>,
      Set_Fields = \<lparr>Set_Using = None, Set_Params = None, Set_VersionSuffix = None\<rparr>\<rparr>"

definition patchBoth :: ExtensionSchemaAnnotation_PartialUpdate where
  "patchBoth =
     \<lparr>Delete_Fields = \<lparr>Delete_Using = True, Delete_Params = False, Delete_VersionSuffix = False\<rparr>,
      Set_Fields = \<lparr>Set_Using = Some ''finder:x'', Set_Params = None, Set_VersionSuffix = None\<rparr>\<rparr>"

definition patchDeleteSet :: ExtensionSchemaAnnotation_PartialUpdate where
  "patchDeleteSet =
     \<lparr>Delete_Fields = \<lparr>Delete_Using = False, Delete_Params = True, Delete_VersionSuffix = False\<rparr>,
      Set_Fields = \<lparr>Set_Using = Some ''get_all'', Set_Params = None, Set_VersionSuffix = None\<rparr>\<rparr>"

definition inputBoth :: "(string \<times> wire) list" where
  "inputBoth =
    [(''$delete'', WArray [WString ''params'']), (''other'', WString ''x''),
     (''$set'', WMap [(''params'', WMap [(''a'', WString ''b'')])])]"

section \<open>What the cycle phase leaves unchanged\<close>

text \<open>
  Flagging writes \<open>IsCyclic\<close> and nothing else: the entries of \<open>types\<close> keep their order,
  their keys and every other field, a flag that is set stays set, and \<open>packageRoots\<close> is not
  touched.
\<close>

definition flagged :: "Identifier \<times> registeredType \<Rightarrow> Identifier \<times> registeredType \<Rightarrow> bool" where
  "flagged a b \<longleftrightarrow>
     fst b = fst a \<and> Type (snd b) = Type (snd a) \<and> PackageRoot (snd b) = PackageRoot (snd a) \<and>
     TypeNameOverride (snd b) = TypeNameOverride (snd a) \<and>
     IsCustomTyperef (snd b) = IsCustomTyperef (snd a) \<and>
     (IsCyclic (snd a) \<longrightarrow> IsCyclic (snd b))"

definition flagsGrow :: "typeRegistry \<Rightarrow> typeRegistry \<Rightarrow> bool" where
  "flagsGrow reg reg' \<longleftrightarrow>
     packageRoots reg' = packageRoots reg \<and> list_all2 flagged (types reg) (types reg')"

lemma flagsGrow_refl: "flagsGrow reg reg"
  by (simp add: flagsGrow_def flagged_def list_all2_same)

lemma flagsGrow_trans:
  assumes "flagsGrow r1 r2" and "flagsGrow r2 r3"
  shows "flagsGrow r1 r3"
proof -
  have "list_all2 flagged (types r1) (types r3)"
  proof (rule list_all2_trans[where ?as = "types r1" and ?bs = "types r2" and ?cs = "types r3"])
    show "list_all2 flagged (types r1) (types r2)" using assms(1) by (simp add: flagsGrow_def)
    show "list_all2 flagged (types r2) (types r3)" using assms(2) by (simp add: flagsGrow_def)
  qed (simp add: flagged_def)
  then show ?thesis using assms by (simp add: flagsGrow_def)
qed

lemma list_all2_update:
  assumes "map_of al k = Some v" and "R (k, v) (k, v')" and "\<And>x. R x x"
  shows "list_all2 R al (AList.update k v' al)"
  using assms(1)
proof (induction al)
  case Nil
  then show ?case by simp
next
  case (Cons p al)
  show ?case
  proof (cases "fst p = k")
    case True
    then have "p = (k, v)" using Cons.prems by (cases p) auto
    then show ?thesis using assms(2,3) by (simp add: list_all2_same)
  next
    case False
    then have "map_of al k = Some v" using Cons.prems by (cases p) auto
    then show ?thesis using Cons.IH False assms(3) by simp
  qed
qed

lemma flagsGrow_flag:
  assumes "get reg ident = Inr node"
  shows "flagsGrow reg (reg\<lparr>types := AList.update ident (node\<lparr>IsCyclic := True\<rparr>) (types reg)\<rparr>)"
proof -
  have "map_of (types reg) ident = Some node" using assms by (simp add: get_Inr_iff)
  then have "list_all2 flagged (types reg) (AList.update ident (node\<lparr>IsCyclic := True\<rparr>) (types reg))"
    by (rule list_all2_update) (simp_all add: flagged_def)
  then show ?thesis by (simp add: flagsGrow_def)
qed

lemma flagCyclic_flagsGrow:
  "flagCyclic reg ident = Inr reg' \<Longrightarrow> flagsGrow reg reg'"
  "flagCyclic_children reg root cs = Inr reg'' \<Longrightarrow> flagsGrow reg reg''"
proof (induction reg ident and reg root cs arbitrary: reg' and reg'' rule: flagCyclic_flagCyclic_children.induct)
  case (1 reg ident)
  from "1.prems" obtain node where node: "get reg ident = Inr node"
    by (cases "get reg ident") auto
  define reg1 where "reg1 = (if \<not> IsCyclic node
            then reg\<lparr>types := AList.update ident (node\<lparr>IsCyclic := True\<rparr>) (types reg)\<rparr>
            else reg)"
  have "flagCyclic_children reg1 (PackageRoot node) (InnerTypes (Type node)) = Inr reg'"
    using "1.prems" node by (simp add: reg1_def)
  then have "flagsGrow reg1 reg'" using "1.IH"[OF node reg1_def] by simp
  moreover have "flagsGrow reg reg1"
    using flagsGrow_flag[OF node] flagsGrow_refl by (simp add: reg1_def)
  ultimately show ?case using flagsGrow_trans by blast
next
  case (2 reg nodeRoot)
  then show ?case by (simp add: flagsGrow_refl)
next
  case (3 reg nodeRoot c cs)
  from "3.prems" obtain child where child: "get reg c = Inr child"
    by (cases "get reg c") auto
  show ?case
  proof (cases "\<not> IsCyclic child \<and> nodeRoot = PackageRoot child")
    case True
    from "3.prems" child True obtain regm where
      regm: "flagCyclic reg c = Inr regm" and rest: "flagCyclic_children regm nodeRoot cs = Inr reg''"
      by (cases "flagCyclic reg c") auto
    show ?thesis
      using "3.IH"(1)[OF child True regm] "3.IH"(2)[OF child True regm rest] flagsGrow_trans
      by blast
  next
    case False
    then have "flagCyclic_children reg nodeRoot cs = Inr reg''"
      using "3.prems" child by auto
    then show ?thesis using "3.IH"(3)[OF child False] by simp
  qed
qed


lemma flagCycle_flagsGrow: "flagCycle reg cyc = Inr reg' \<Longrightarrow> flagsGrow reg reg'"
proof (induction cyc arbitrary: reg)
  case Nil
  then show ?case by (simp add: flagsGrow_refl)
next
  case (Cons c cyc)
  then obtain regm where "flagCyclic reg c = Inr regm" and "flagCycle regm cyc = Inr reg'"
    by (cases "flagCyclic reg c") auto
  then show ?case using Cons.IH flagCyclic_flagsGrow(1) flagsGrow_trans by blast
qed

declare findCycle.simps [simp del]

lemma loop_unfold:
  "flagCyclicDependencies_loop reg ident =
    (case findCycle reg ident [] of
       Inl e \<Rightarrow> Some (Inl e)
     | Inr cycle \<Rightarrow>
         if cycle \<noteq> [] then
           (case cycleRoots reg cycle ([], []) of
              Inl e \<Rightarrow> Some (Inl e)
            | Inr (roots, identifiers) \<Rightarrow>
                if 1 < length roots then Some (Inl (CrossPackageCycle (Join identifiers '' -> '')))
                else (case flagCycle reg cycle of
                        Inl e \<Rightarrow> Some (Inl e)
                      | Inr reg' \<Rightarrow> flagCyclicDependencies_loop reg' ident))
         else Some (Inr reg))"
  by (subst flagCyclicDependencies_loop.simps) (auto simp: Let_def split: sum.splits)

lemma loop_induct [consumes 1, case_names findPanic finished rootsPanic cross flagPanic step]:
  assumes run: "flagCyclicDependencies_loop reg ident = Some r"
    and findPanic: "\<And>reg e. findCycle reg ident [] = Inl e \<Longrightarrow> P reg (Inl e)"
    and finished: "\<And>reg. findCycle reg ident [] = Inr [] \<Longrightarrow> P reg (Inr reg)"
    and rootsPanic: "\<And>reg cyc e. findCycle reg ident [] = Inr cyc \<Longrightarrow> cyc \<noteq> [] \<Longrightarrow>
           cycleRoots reg cyc ([], []) = Inl e \<Longrightarrow> P reg (Inl e)"
    and cross: "\<And>reg cyc roots ids. findCycle reg ident [] = Inr cyc \<Longrightarrow> cyc \<noteq> [] \<Longrightarrow>
           cycleRoots reg cyc ([], []) = Inr (roots, ids) \<Longrightarrow> 1 < length roots \<Longrightarrow>
           P reg (Inl (CrossPackageCycle (Join ids '' -> '')))"
    and flagPanic: "\<And>reg cyc roots ids e. findCycle reg ident [] = Inr cyc \<Longrightarrow> cyc \<noteq> [] \<Longrightarrow>
           cycleRoots reg cyc ([], []) = Inr (roots, ids) \<Longrightarrow> \<not> 1 < length roots \<Longrightarrow>
           flagCycle reg cyc = Inl e \<Longrightarrow> P reg (Inl e)"
    and step: "\<And>reg cyc roots ids regm r. findCycle reg ident [] = Inr cyc \<Longrightarrow> cyc \<noteq> [] \<Longrightarrow>
           cycleRoots reg cyc ([], []) = Inr (roots, ids) \<Longrightarrow> \<not> 1 < length roots \<Longrightarrow>
           flagCycle reg cyc = Inr regm \<Longrightarrow> flagCyclicDependencies_loop regm ident = Some r \<Longrightarrow>
           P regm r \<Longrightarrow> P reg r"
  shows "P reg r"
proof -
  have "i = ident \<longrightarrow> flagCyclicDependencies_loop reg ident = Some r \<and> P reg r"
    if "flagCyclicDependencies_loop reg i = Some r" for i
  proof (rule flagCyclicDependencies_loop.raw_induct[
        where P = "\<lambda>reg i r. i = ident \<longrightarrow>
                     flagCyclicDependencies_loop reg ident = Some r \<and> P reg r", OF _ that],
      goal_cases)
    case (1 loop reg i r)
    note body = "1"(2)
    show ?case
    proof
      assume i: "i = ident"
      show "flagCyclicDependencies_loop reg ident = Some r \<and> P reg r"
      proof (cases "findCycle reg ident []")
        case (Inl e)
        then show ?thesis using body i findPanic by (auto simp: loop_unfold[of reg])
      next
        case (Inr cyc)
        show ?thesis
        proof (cases "cyc = []")
          case True
          then show ?thesis using body i Inr finished by (auto simp: loop_unfold[of reg])
        next
          case False
          show ?thesis
          proof (cases "cycleRoots reg cyc ([], [])")
            case (Inl e)
            then show ?thesis
              using body i Inr False rootsPanic[OF Inr False Inl] by (auto simp: loop_unfold[of reg])
          next
            case roots: (Inr p)
            obtain roots ids where p: "p = (roots, ids)" by (cases p)
            show ?thesis
            proof (cases "1 < length roots")
              case True
              then show ?thesis
                using body i Inr False roots p cross[OF Inr False roots[unfolded p] True]
                by (auto simp: loop_unfold[of reg])
            next
              case single: False
              show ?thesis
              proof (cases "flagCycle reg cyc")
                case (Inl e)
                have r: "r = Inl e" using body i Inr False roots p single Inl by simp
                have "flagCyclicDependencies_loop reg ident = Some (Inl e)"
                  using Inr False roots p single Inl by (simp add: loop_unfold[of reg])
                then show ?thesis
                  using r flagPanic[OF Inr False roots[unfolded p] single Inl] by simp
              next
                case flagged: (Inr regm)
                have next_run: "loop regm ident = Some r"
                  using body i Inr False roots p single flagged by simp
                have ih: "flagCyclicDependencies_loop regm ident = Some r \<and> P regm r"
                  using "1"(1)[OF next_run] by simp
                have "flagCyclicDependencies_loop reg ident = Some r"
                  using ih Inr False roots p single flagged by (auto simp: loop_unfold[of reg])
                moreover have "P reg r"
                  using step[OF Inr False roots[unfolded p] single flagged] ih by simp
                ultimately show ?thesis by simp
              qed
            qed
          qed
        qed
      qed
    qed
  qed
  then show ?thesis using run by simp
qed

lemma loop_flagsGrow:
  "flagCyclicDependencies_loop reg ident = Some r \<Longrightarrow> r = Inr reg' \<Longrightarrow> flagsGrow reg reg'"
proof (induction rule: loop_induct)
  case (finished reg)
  then show ?case by (simp add: flagsGrow_refl)
next
  case (step reg cyc roots ids regm r)
  then show ?case using flagCycle_flagsGrow flagsGrow_trans by blast
qed simp_all

lemma from_flagsGrow:
  "flagCyclicDependencies_from reg idents = Some (Inr reg') \<Longrightarrow> flagsGrow reg reg'"
proof (induction idents arbitrary: reg)
  case Nil
  then show ?case by (simp add: flagsGrow_refl)
next
  case (Cons ident idents)
  then obtain regm where "flagCyclicDependencies_loop reg ident = Some (Inr regm)"
    and "flagCyclicDependencies_from regm idents = Some (Inr reg')"
    by (auto split: option.splits sum.splits)
  then show ?case using Cons.IH loop_flagsGrow flagsGrow_trans by blast
qed

lemma flagCyclicDependencies_flagsGrow:
  "flagCyclicDependencies reg = Some (Inr reg') \<Longrightarrow> flagsGrow reg reg'"
  by (simp add: flagCyclicDependencies_def from_flagsGrow)

section \<open>What name remediation leaves unchanged\<close>

text \<open>Renaming writes \<open>TypeNameOverride\<close> and nothing else.\<close>

definition renamed :: "Identifier \<times> registeredType \<Rightarrow> Identifier \<times> registeredType \<Rightarrow> bool" where
  "renamed a b \<longleftrightarrow>
     fst b = fst a \<and> Type (snd b) = Type (snd a) \<and> PackageRoot (snd b) = PackageRoot (snd a) \<and>
     IsCyclic (snd b) = IsCyclic (snd a) \<and> IsCustomTyperef (snd b) = IsCustomTyperef (snd a)"

definition overridesOnly :: "typeRegistry \<Rightarrow> typeRegistry \<Rightarrow> bool" where
  "overridesOnly reg reg' \<longleftrightarrow>
     packageRoots reg' = packageRoots reg \<and> list_all2 renamed (types reg) (types reg')"

lemma overridesOnly_refl: "overridesOnly reg reg"
  by (simp add: overridesOnly_def renamed_def list_all2_same)

lemma overridesOnly_trans:
  assumes "overridesOnly r1 r2" and "overridesOnly r2 r3"
  shows "overridesOnly r1 r3"
proof -
  have "list_all2 renamed (types r1) (types r3)"
  proof (rule list_all2_trans[where ?as = "types r1" and ?bs = "types r2" and ?cs = "types r3"])
    show "list_all2 renamed (types r1) (types r2)" using assms(1) by (simp add: overridesOnly_def)
    show "list_all2 renamed (types r2) (types r3)" using assms(2) by (simp add: overridesOnly_def)
  qed (simp add: renamed_def)
  then show ?thesis using assms by (simp add: overridesOnly_def)
qed

lemma overridesOnly_rename:
  assumes "get reg ident = Inr rt"
  shows "overridesOnly reg
           (reg\<lparr>types := AList.update ident (rt\<lparr>TypeNameOverride := override\<rparr>) (types reg)\<rparr>)"
proof -
  have "map_of (types reg) ident = Some rt" using assms by (simp add: get_Inr_iff)
  then have "list_all2 renamed (types reg)
               (AList.update ident (rt\<lparr>TypeNameOverride := override\<rparr>) (types reg))"
    by (rule list_all2_update) (simp_all add: renamed_def)
  then show ?thesis by (simp add: overridesOnly_def)
qed

lemma renameGroup_overridesOnly:
  "renameGroup reg v overrides = Inr reg' \<Longrightarrow> overridesOnly reg reg'"
proof (induction v arbitrary: reg overrides)
  case Nil
  then show ?case by (simp add: overridesOnly_refl)
next
  case (Cons ident v)
  from Cons.prems obtain override rt where
    ov: "ExportedIdentifier (drop (nat (LastIndex (Namespace ident) ''.'' + 1)) (Namespace ident)
           @ Name ident) = Inr override"
    and rt: "get reg ident = Inr rt"
    and none: "map_of overrides override = None"
    and rest: "renameGroup (reg\<lparr>types :=
                  AList.update ident (rt\<lparr>TypeNameOverride := override\<rparr>) (types reg)\<rparr>) v
                 (AList.update override ident overrides) = Inr reg'"
    by (auto split: sum.splits option.splits simp: Let_def)
  show ?case
    using Cons.IH[OF rest] overridesOnly_rename[OF rt, of override] overridesOnly_trans by blast
qed

lemma renameGroups_overridesOnly:
  "renameGroups reg cts = Inr reg' \<Longrightarrow> overridesOnly reg reg'"
proof (induction reg cts rule: renameGroups.induct)
  case (1 reg)
  then show ?case by (simp add: overridesOnly_refl)
next
  case (2 reg name v rest)
  show ?case
  proof (cases "length v = 1")
    case True
    then show ?thesis using 2 by simp
  next
    case False
    then obtain regm where "renameGroup reg v [] = Inr regm" and "renameGroups regm rest = Inr reg'"
      using "2.prems" by (auto split: sum.splits)
    then show ?thesis
      using "2.IH"(2)[OF False] renameGroup_overridesOnly overridesOnly_trans by blast
  qed
qed

lemma remediateRoots_overridesOnly:
  "remediateRoots reg roots = Inr reg' \<Longrightarrow> overridesOnly reg reg'"
proof (induction reg roots rule: remediateRoots.induct)
  case (1 reg)
  then show ?case by (simp add: overridesOnly_refl)
next
  case (2 reg root members rest)
  then obtain cts regm where cts: "groupCyclic reg members [] = Inr cts"
    and regm: "renameGroups reg cts = Inr regm" and rest: "remediateRoots regm rest = Inr reg'"
    by (auto split: sum.splits)
  show ?case
    using "2.IH"[OF cts regm rest] renameGroups_overridesOnly[OF regm] overridesOnly_trans
    by blast
qed

lemma remediateConflictingNames_overridesOnly:
  "remediateConflictingNames reg = Inr reg' \<Longrightarrow> overridesOnly reg reg'"
  by (simp add: remediateConflictingNames_def remediateRoots_overridesOnly)

section \<open>The graph of inner types\<close>

text \<open>
  The edges of the type graph: \<open>a\<close> refers to \<open>b\<close> when \<open>b\<close> is among the inner types of a type
  registered under \<open>a\<close>. The graph and the keys of the registry depend on the keys and the
  \<open>Type\<close> fields alone, which neither phase writes.
\<close>

definition innerEdges :: "typeRegistry \<Rightarrow> (Identifier \<times> Identifier) set" where
  "innerEdges reg = {(a, b). \<exists>rt. (a, rt) \<in> set (types reg) \<and> b \<in> set (InnerTypes (Type rt))}"

definition typeSkeleton :: "typeRegistry \<Rightarrow> (Identifier \<times> ComplexType \<times> string) list" where
  "typeSkeleton reg = map (\<lambda>p. (fst p, Type (snd p), PackageRoot (snd p))) (types reg)"

lemma list_all2_map_eq:
  "list_all2 R xs ys \<Longrightarrow> (\<And>a b. R a b \<Longrightarrow> f a = f b) \<Longrightarrow> map f xs = map f ys"
  by (induction rule: list_all2_induct) auto

lemma flagsGrow_skeleton:
  assumes "flagsGrow reg reg'"
  shows "typeSkeleton reg' = typeSkeleton reg"
proof -
  have "map (\<lambda>p. (fst p, Type (snd p), PackageRoot (snd p))) (types reg) =
        map (\<lambda>p. (fst p, Type (snd p), PackageRoot (snd p))) (types reg')"
    by (rule list_all2_map_eq[where R = flagged])
       (use assms in \<open>simp_all add: flagsGrow_def flagged_def\<close>)
  then show ?thesis by (simp add: typeSkeleton_def)
qed

lemma overridesOnly_skeleton:
  assumes "overridesOnly reg reg'"
  shows "typeSkeleton reg' = typeSkeleton reg"
proof -
  have "map (\<lambda>p. (fst p, Type (snd p), PackageRoot (snd p))) (types reg) =
        map (\<lambda>p. (fst p, Type (snd p), PackageRoot (snd p))) (types reg')"
    by (rule list_all2_map_eq[where R = renamed])
       (use assms in \<open>simp_all add: overridesOnly_def renamed_def\<close>)
  then show ?thesis by (simp add: typeSkeleton_def)
qed

lemma keys_skeleton: "fst ` set (types reg) = fst ` set (typeSkeleton reg)"
  by (force simp: typeSkeleton_def)

lemma innerEdges_skeleton:
  "innerEdges reg = {(a, b). \<exists>ty r. (a, ty, r) \<in> set (typeSkeleton reg) \<and> b \<in> set (InnerTypes ty)}"
  by (force simp: innerEdges_def typeSkeleton_def)

lemma skeleton_keys: "typeSkeleton reg' = typeSkeleton reg \<Longrightarrow> fst ` set (types reg') = fst ` set (types reg)"
  by (simp add: keys_skeleton)

lemma skeleton_innerEdges: "typeSkeleton reg' = typeSkeleton reg \<Longrightarrow> innerEdges reg' = innerEdges reg"
  by (simp add: innerEdges_skeleton)

section \<open>Completeness validation\<close>

lemma validateDeps_None:
  "validateDeps reg ident deps = None \<longleftrightarrow> (\<forall>dep \<in> set deps. dep \<in> fst ` set (types reg))"
  by (induction deps) (auto simp: registered_iff split: option.splits)

lemma validateDeps_Some:
  "validateDeps reg ident deps = Some e \<Longrightarrow>
     \<exists>dep \<in> set deps. dep \<notin> fst ` set (types reg) \<and>
        e = UnknownDependency (FullName ident) (FullName dep)"
  by (induction deps) (auto simp: registered_iff split: option.splits)

lemma validateTypes_None:
  "validateTypes reg al = None \<longleftrightarrow>
     (\<forall>(ident, rt) \<in> set al. \<forall>dep \<in> set (InnerTypes (Type rt)). dep \<in> fst ` set (types reg))"
  by (induction al) (auto simp: validateDeps_None split: option.splits)

lemma validateTypes_Some:
  "validateTypes reg al = Some e \<Longrightarrow>
     \<exists>ident rt dep. (ident, rt) \<in> set al \<and> dep \<in> set (InnerTypes (Type rt)) \<and>
        dep \<notin> fst ` set (types reg) \<and> e = UnknownDependency (FullName ident) (FullName dep)"
proof (induction al)
  case Nil
  then show ?case by simp
next
  case (Cons p al)
  obtain ident rt where p: "p = (ident, rt)" by (cases p)
  show ?case
  proof (cases "validateDeps reg ident (InnerTypes (Type rt))")
    case None
    then show ?thesis using Cons p by auto
  next
    case (Some e')
    then have "e' = e" using Cons.prems p by simp
    then show ?thesis using validateDeps_Some[OF Some] p by auto
  qed
qed

text \<open>A registry is complete when every edge of the type graph ends in a key.\<close>

definition complete :: "typeRegistry \<Rightarrow> bool" where
  "complete reg \<longleftrightarrow> (\<forall>(a, b) \<in> innerEdges reg. b \<in> fst ` set (types reg))"

lemma validate_complete: "validateAllTypesSatisfied reg = None \<longleftrightarrow> complete reg"
  by (auto simp: validateAllTypesSatisfied_def validateTypes_None complete_def innerEdges_def)

lemma complete_skeleton:
  assumes "typeSkeleton reg' = typeSkeleton reg"
  shows "complete reg' = complete reg"
  using skeleton_keys[OF assms] skeleton_innerEdges[OF assms] by (simp add: complete_def)

lemma complete_reachable:
  assumes "complete reg" and "(a, b) \<in> (innerEdges reg)\<^sup>*" and "a \<in> fst ` set (types reg)"
  shows "b \<in> fst ` set (types reg)"
  using assms(2,3)
proof (induction rule: rtrancl_induct)
  case base
  then show ?case .
next
  case (step y z)
  then show ?case using assms(1) by (auto simp: complete_def)
qed

lemma Finalize_success:
  assumes "Finalize reg = Some (Inr reg')"
  shows "validateAllTypesSatisfied reg = None"
    and "\<exists>reg1. flagCyclicDependencies reg = Some (Inr reg1) \<and> remediateConflictingNames reg1 = Inr reg'"
  using assms by (auto simp: Finalize_def split: option.splits sum.splits)

lemma Finalize_skeleton:
  assumes "Finalize reg = Some (Inr reg')"
  shows "typeSkeleton reg' = typeSkeleton reg"
proof -
  from Finalize_success(2)[OF assms] obtain reg1 where
    1: "flagCyclicDependencies reg = Some (Inr reg1)" and 2: "remediateConflictingNames reg1 = Inr reg'"
    by blast
  show ?thesis
    using flagsGrow_skeleton[OF flagCyclicDependencies_flagsGrow[OF 1]]
      overridesOnly_skeleton[OF remediateConflictingNames_overridesOnly[OF 2]] by simp
qed

section \<open>Progress of the cycle phase\<close>

lemma list_all2_map_of:
  assumes "list_all2 R al al'" and "\<And>a b. R a b \<Longrightarrow> fst b = fst a"
  shows "(map_of al k = None \<longleftrightarrow> map_of al' k = None) \<and>
         (\<forall>v'. map_of al' k = Some v' \<longrightarrow> (\<exists>v. map_of al k = Some v \<and> R (k, v) (k, v')))"
  using assms(1)
proof (induction rule: list_all2_induct)
  case Nil
  then show ?case by simp
next
  case (Cons a al b al')
  have "fst b = fst a" using Cons.hyps(1) assms(2) by simp
  then show ?case using Cons by (cases a, cases b) auto
qed

lemma flagsGrow_map_of:
  assumes "flagsGrow reg reg'" and "map_of (types reg') k = Some t'"
  shows "\<exists>t. map_of (types reg) k = Some t \<and> flagged (k, t) (k, t')"
  using list_all2_map_of[where R = flagged and al = "types reg" and al' = "types reg'" and k = k]
    assms by (auto simp: flagsGrow_def flagged_def)


lemma flagsGrow_nonCyclic: "flagsGrow reg reg' \<Longrightarrow> nonCyclic reg' \<subseteq> nonCyclic reg"
  using flagsGrow_map_of by (fastforce simp: nonCyclic_def flagged_def)

lemma flagCyclic_flags_it:
  assumes "flagCyclic reg c = Inr reg'"
  shows "c \<notin> nonCyclic reg'"
proof -
  from assms obtain node where node: "get reg c = Inr node"
    by (cases "get reg c") (auto simp: flagCyclic.simps)
  define reg1 where "reg1 = (if \<not> IsCyclic node
            then reg\<lparr>types := AList.update c (node\<lparr>IsCyclic := True\<rparr>) (types reg)\<rparr>
            else reg)"
  have "flagCyclic_children reg1 (PackageRoot node) (InnerTypes (Type node)) = Inr reg'"
    using assms node by (simp add: reg1_def flagCyclic.simps)
  then have "nonCyclic reg' \<subseteq> nonCyclic reg1"
    using flagCyclic_flagsGrow(2) flagsGrow_nonCyclic by blast
  moreover have "c \<notin> nonCyclic reg1" using nonCyclic_reg1[OF node] by (simp add: reg1_def)
  ultimately show ?thesis by blast
qed

lemma flagCycle_flags_all:
  "flagCycle reg cyc = Inr reg' \<Longrightarrow> nonCyclic reg' \<subseteq> nonCyclic reg - set cyc"
proof (induction cyc arbitrary: reg)
  case Nil
  then show ?case by simp
next
  case (Cons c cyc)
  then obtain regm where 1: "flagCyclic reg c = Inr regm" and 2: "flagCycle regm cyc = Inr reg'"
    by (cases "flagCyclic reg c") auto
  have "nonCyclic regm \<subseteq> nonCyclic reg - {c}"
    using flagCyclic_flags_it[OF 1] flagsGrow_nonCyclic[OF flagCyclic_flagsGrow(1)[OF 1]] by blast
  then show ?case using Cons.IH[OF 2] by auto
qed

lemma IntroducesCycle_loop_shape:
  "IntroducesCycle_loop p n pkg k b \<noteq> [] \<Longrightarrow>
     \<exists>i < k. IntroducesCycle_loop p n pkg k b = drop i p @ [n]"
proof (induction k arbitrary: b)
  case 0
  then show ?case by simp
next
  case (Suc k)
  then show ?case by (fastforce simp: Let_def less_Suc_eq split: if_splits)
qed

lemma IntroducesCycle_shape:
  "IntroducesCycle p n \<noteq> [] \<Longrightarrow> \<exists>i < length p. IntroducesCycle p n = drop i p @ [n]"
  unfolding IntroducesCycle_def by (rule IntroducesCycle_loop_shape)

lemma IsCyclic_reg_False: "IsCyclic_reg reg c = Inr False \<longleftrightarrow> c \<in> nonCyclic reg"
  by (auto simp: IsCyclic_reg_def get_def nonCyclic_def split: option.splits)

text \<open>
  A chain that \<open>findCycle\<close> returns consists of nodes of the path it was given, of the node it
  was started at and of nodes whose flag is not set; it ends in a node whose flag is not set
  unless the start node itself closes the chain.
\<close>

lemma findCycle_chain:
  "findCycle reg n path = Inr cyc \<Longrightarrow> cyc \<noteq> [] \<Longrightarrow>
     set cyc \<subseteq> set path \<union> {n} \<union> nonCyclic reg \<and>
     (cyc = IntroducesCycle path n \<or> last cyc \<in> nonCyclic reg)"
  "findCycle_children reg cs newPath = Inr cyc' \<Longrightarrow> cyc' \<noteq> [] \<Longrightarrow>
     set cyc' \<subseteq> set newPath \<union> nonCyclic reg \<and> last cyc' \<in> nonCyclic reg"
proof (induction reg n path and reg cs newPath arbitrary: cyc and cyc'
    rule: findCycle_findCycle_children.induct)
  case (1 reg nextNode path)
  show ?case
  proof (cases "IntroducesCycle path nextNode = []")
    case False
    then have cyc: "cyc = IntroducesCycle path nextNode"
      using "1.prems" by (simp add: findCycle.simps Let_def)
    obtain i where "cyc = drop i path @ [nextNode]"
      using IntroducesCycle_shape[OF False] cyc by auto
    then have "set cyc \<subseteq> set path \<union> {nextNode}" using set_drop_subset[of i path] by auto
    then show ?thesis using cyc by auto
  next
    case True
    then have unseen: "\<not> SeenNode path nextNode"
      using "1.prems" by (auto simp: findCycle.simps Let_def split: if_splits)
    then obtain node where node: "get reg nextNode = Inr node"
      using "1.prems" True by (cases "get reg nextNode") (auto simp: findCycle.simps Let_def)
    have kids: "findCycle_children reg (InnerTypes (Type node)) (Add path nextNode) = Inr cyc"
      using "1.prems" True unseen node by (simp add: findCycle.simps Let_def)
    have "set cyc \<subseteq> set (Add path nextNode) \<union> nonCyclic reg \<and> last cyc \<in> nonCyclic reg"
      using "1.IH"[OF refl _ unseen node kids "1.prems"(2)] True by simp
    then show ?thesis by (auto simp: Add_def)
  qed
next
  case (2 reg newPath)
  then show ?case by simp
next
  case (3 reg c cs newPath)
  from "3.prems" obtain cyclic where cyclic: "IsCyclic_reg reg c = Inr cyclic"
    by (cases "IsCyclic_reg reg c") auto
  show ?case
  proof (cases cyclic)
    case True
    then have "findCycle_children reg cs newPath = Inr cyc'" using "3.prems" cyclic by simp
    then show ?thesis using "3.IH"(3)[OF cyclic _ _ "3.prems"(2)] True by simp
  next
    case False
    then have c: "c \<in> nonCyclic reg" using cyclic by (simp add: IsCyclic_reg_False)
    from "3.prems" cyclic False obtain p where p: "findCycle reg c newPath = Inr p"
      by (cases "findCycle reg c newPath") auto
    show ?thesis
    proof (cases "p = []")
      case True
      then have "findCycle_children reg cs newPath = Inr cyc'"
        using "3.prems" cyclic False p by simp
      then show ?thesis using "3.IH"(2)[OF cyclic False p _ _ "3.prems"(2)] True by simp
    next
      case nonempty: False
      then have eq: "cyc' = p" using "3.prems" cyclic False p by simp
      have ih: "set p \<subseteq> set newPath \<union> {c} \<union> nonCyclic reg \<and>
          (p = IntroducesCycle newPath c \<or> last p \<in> nonCyclic reg)"
        using "3.IH"(1)[OF cyclic False p nonempty] .
      have "last p \<in> nonCyclic reg"
      proof (cases "p = IntroducesCycle newPath c")
        case True
        then obtain i where "p = drop i newPath @ [c]"
          using IntroducesCycle_shape[of newPath c] nonempty by auto
        then show ?thesis using c by simp
      next
        case False
        then show ?thesis using ih by simp
      qed
      then show ?thesis using ih c eq by auto
    qed
  qed
qed

lemma IntroducesCycle_Nil: "IntroducesCycle [] n = []"
  by (simp add: IntroducesCycle_def)

lemma findCycle_progress:
  assumes "findCycle reg ident [] = Inr cyc" and "cyc \<noteq> []" and "flagCycle reg cyc = Inr reg'"
  shows "last cyc \<in> nonCyclic reg" and "nonCyclic reg' \<subseteq> nonCyclic reg - set cyc"
    and "card (nonCyclic reg') < card (nonCyclic reg)"
proof -
  show 1: "last cyc \<in> nonCyclic reg"
    using findCycle_chain(1)[OF assms(1,2)] assms(2) by (auto simp: IntroducesCycle_Nil)
  show 2: "nonCyclic reg' \<subseteq> nonCyclic reg - set cyc" using flagCycle_flags_all[OF assms(3)] .
  have "last cyc \<in> set cyc" using assms(2) by simp
  then have "nonCyclic reg' \<subset> nonCyclic reg" using 1 2 by blast
  then show "card (nonCyclic reg') < card (nonCyclic reg)"
    by (simp add: psubset_card_mono finite_nonCyclic)
qed

lemma loop_terminates: "\<exists>r. flagCyclicDependencies_loop reg ident = Some r"
proof (induction "card (nonCyclic reg)" arbitrary: reg rule: less_induct)
  case less
  show ?case
  proof (cases "findCycle reg ident []")
    case (Inl e)
    then show ?thesis by (simp add: loop_unfold[of reg])
  next
    case (Inr cyc)
    show ?thesis
    proof (cases "cyc = []")
      case True
      then show ?thesis using Inr by (simp add: loop_unfold[of reg])
    next
      case False
      show ?thesis
      proof (cases "flagCycle reg cyc")
        case (Inl e)
        then show ?thesis using Inr False
          by (auto simp: loop_unfold[of reg] split: sum.splits)
      next
        case flagged: (Inr regm)
        have "\<exists>r. flagCyclicDependencies_loop regm ident = Some r"
          using less[OF findCycle_progress(3)[OF Inr False flagged]] .
        then show ?thesis using Inr False flagged
          by (auto simp: loop_unfold[of reg] split: sum.splits)
      qed
    qed
  qed
qed

lemma from_terminates: "\<exists>r. flagCyclicDependencies_from reg idents = Some r"
proof (induction idents arbitrary: reg)
  case Nil
  then show ?case by simp
next
  case (Cons ident idents)
  obtain r where r: "flagCyclicDependencies_loop reg ident = Some r"
    using loop_terminates by blast
  show ?case
  proof (cases r)
    case (Inl e)
    then show ?thesis using r by simp
  next
    case (Inr regm)
    then show ?thesis using r Cons.IH[of regm] by simp
  qed
qed

section \<open>No panic on a complete registry\<close>

lemma complete_inner:
  assumes "complete reg" and "get reg n = Inr node"
  shows "set (InnerTypes (Type node)) \<subseteq> fst ` set (types reg)"
proof -
  have "(n, node) \<in> set (types reg)" using assms(2) by (simp add: get_Inr_iff map_of_SomeD)
  then show ?thesis using assms(1) by (auto simp: complete_def innerEdges_def)
qed

lemma get_registered: "n \<in> fst ` set (types reg) \<Longrightarrow> \<exists>node. get reg n = Inr node"
  by (simp add: registered_iff get_Inr_iff)

lemma nonCyclic_registered: "nonCyclic reg \<subseteq> fst ` set (types reg)"
  by (auto simp: nonCyclic_def registered_iff)

lemma findCycle_no_panic:
  "complete reg \<Longrightarrow> n \<in> fst ` set (types reg) \<Longrightarrow> \<exists>cyc. findCycle reg n path = Inr cyc"
  "complete reg \<Longrightarrow> set cs \<subseteq> fst ` set (types reg) \<Longrightarrow>
     \<exists>cyc. findCycle_children reg cs newPath = Inr cyc"
proof (induction reg n path and reg cs newPath rule: findCycle_findCycle_children.induct)
  case (1 reg nextNode path)
  obtain node where node: "get reg nextNode = Inr node"
    using get_registered[OF "1.prems"(2)] by blast
  show ?case
  proof (cases "IntroducesCycle path nextNode \<noteq> [] \<or> SeenNode path nextNode")
    case True
    then show ?thesis by (auto simp: findCycle.simps Let_def)
  next
    case False
    then have "\<exists>cyc. findCycle_children reg (InnerTypes (Type node)) (Add path nextNode) = Inr cyc"
      using "1.IH"[OF refl _ _ node "1.prems"(1) complete_inner[OF "1.prems"(1) node]] by simp
    then show ?thesis using False node by (auto simp: findCycle.simps Let_def)
  qed
next
  case (2 reg newPath)
  then show ?case by simp
next
  case (3 reg c cs newPath)
  have c: "c \<in> fst ` set (types reg)" and cs: "set cs \<subseteq> fst ` set (types reg)"
    using "3.prems"(2) by auto
  obtain node where node: "get reg c = Inr node" using get_registered[OF c] by blast
  then have cyclic: "IsCyclic_reg reg c = Inr (IsCyclic node)" by (simp add: IsCyclic_reg_def)
  show ?case
  proof (cases "IsCyclic node")
    case True
    then show ?thesis using "3.IH"(3)[OF cyclic _ "3.prems"(1) cs] cyclic by simp
  next
    case False
    obtain p where p: "findCycle reg c newPath = Inr p"
      using "3.IH"(1)[OF cyclic False "3.prems"(1) c] by blast
    show ?thesis
    proof (cases "p = []")
      case True
      then show ?thesis using "3.IH"(2)[OF cyclic False p _ "3.prems"(1) cs] cyclic False p by simp
    next
      case nonempty: False
      then show ?thesis using cyclic False p by simp
    qed
  qed
qed

lemma flagsGrow_complete:
  assumes "flagsGrow reg reg'"
  shows "complete reg' = complete reg" and "fst ` set (types reg') = fst ` set (types reg)"
  using complete_skeleton[OF flagsGrow_skeleton[OF assms]] skeleton_keys[OF flagsGrow_skeleton[OF assms]]
  by simp_all

lemma flagCyclic_no_panic:
  "complete reg \<Longrightarrow> ident \<in> fst ` set (types reg) \<Longrightarrow> \<exists>reg'. flagCyclic reg ident = Inr reg'"
  "complete reg \<Longrightarrow> set cs \<subseteq> fst ` set (types reg) \<Longrightarrow>
     \<exists>reg'. flagCyclic_children reg root cs = Inr reg'"
proof (induction reg ident and reg root cs rule: flagCyclic_flagCyclic_children.induct)
  case (1 reg ident)
  obtain node where node: "get reg ident = Inr node"
    using get_registered[OF "1.prems"(2)] by blast
  define reg1 where "reg1 = (if \<not> IsCyclic node
            then reg\<lparr>types := AList.update ident (node\<lparr>IsCyclic := True\<rparr>) (types reg)\<rparr>
            else reg)"
  have grow: "flagsGrow reg reg1"
    using flagsGrow_flag[OF node] flagsGrow_refl by (simp add: reg1_def)
  have "complete reg1" using flagsGrow_complete(1)[OF grow] "1.prems"(1) by simp
  moreover have "set (InnerTypes (Type node)) \<subseteq> fst ` set (types reg1)"
    using complete_inner[OF "1.prems"(1) node] flagsGrow_complete(2)[OF grow] by simp
  ultimately have "\<exists>reg'. flagCyclic_children reg1 (PackageRoot node) (InnerTypes (Type node)) = Inr reg'"
    using "1.IH"[OF node reg1_def] by simp
  then show ?case using node by (simp add: flagCyclic.simps reg1_def)
next
  case (2 reg nodeRoot)
  then show ?case by simp
next
  case (3 reg nodeRoot c cs)
  have c: "c \<in> fst ` set (types reg)" and cs: "set cs \<subseteq> fst ` set (types reg)"
    using "3.prems"(2) by auto
  obtain child where child: "get reg c = Inr child" using get_registered[OF c] by blast
  show ?case
  proof (cases "\<not> IsCyclic child \<and> nodeRoot = PackageRoot child")
    case True
    obtain regm where regm: "flagCyclic reg c = Inr regm"
      using "3.IH"(1)[OF child True "3.prems"(1) c] by blast
    have grow: "flagsGrow reg regm" using flagCyclic_flagsGrow(1)[OF regm] .
    have "\<exists>reg'. flagCyclic_children regm nodeRoot cs = Inr reg'"
      using "3.IH"(2)[OF child True regm] flagsGrow_complete[OF grow] "3.prems"(1) cs by simp
    then show ?thesis using child True regm by simp
  next
    case False
    then show ?thesis using "3.IH"(3)[OF child False "3.prems"(1) cs] child by auto
  qed
qed

lemma flagCycle_no_panic:
  "complete reg \<Longrightarrow> set cyc \<subseteq> fst ` set (types reg) \<Longrightarrow> \<exists>reg'. flagCycle reg cyc = Inr reg'"
proof (induction cyc arbitrary: reg)
  case Nil
  then show ?case by simp
next
  case (Cons c cyc)
  then obtain regm where regm: "flagCyclic reg c = Inr regm"
    using flagCyclic_no_panic(1)[of reg c] by auto
  have grow: "flagsGrow reg regm" using flagCyclic_flagsGrow(1)[OF regm] .
  have "\<exists>reg'. flagCycle regm cyc = Inr reg'"
    using Cons.IH[of regm] flagsGrow_complete[OF grow] Cons.prems by simp
  then show ?case using regm by simp
qed

lemma cycleRoots_no_panic:
  "set cyc \<subseteq> fst ` set (types reg) \<Longrightarrow> \<exists>roots ids. cycleRoots reg cyc acc = Inr (roots, ids)"
proof (induction cyc arbitrary: acc)
  case Nil
  then show ?case by (cases acc) simp
next
  case (Cons c cyc)
  obtain node where node: "get reg c = Inr node" using get_registered[of c reg] Cons.prems by auto
  obtain roots ids where acc: "acc = (roots, ids)" by (cases acc)
  show ?case using Cons.IH[of "(List.insert (PackageRoot node) roots, ids @ [FullName c])"]
      Cons.prems node acc
    by (simp add: PackageRoot_id_def PackageRoot_reg_def)
qed

lemma findCycle_chain_registered:
  assumes "findCycle reg ident [] = Inr cyc" and "ident \<in> fst ` set (types reg)"
  shows "set cyc \<subseteq> fst ` set (types reg)"
proof (cases "cyc = []")
  case True
  then show ?thesis by simp
next
  case False
  then show ?thesis
    using findCycle_chain(1)[OF assms(1) False] assms(2) nonCyclic_registered[of reg] by auto
qed

lemma loop_no_panic:
  assumes "flagCyclicDependencies_loop reg ident = Some r"
  shows "complete reg \<Longrightarrow> ident \<in> fst ` set (types reg) \<Longrightarrow>
     (\<exists>reg'. r = Inr reg') \<or> (\<exists>p. r = Inl (CrossPackageCycle p))"
  using assms
proof (induction rule: loop_induct)
  case (findPanic reg e)
  then show ?case using findCycle_no_panic(1)[of reg ident "[]"] by simp
next
  case (finished reg)
  then show ?case by simp
next
  case (rootsPanic reg cyc e)
  then show ?case
    using cycleRoots_no_panic[OF findCycle_chain_registered, of reg ident cyc "([], [])"] by simp
next
  case (cross reg cyc roots ids)
  then show ?case by simp
next
  case (flagPanic reg cyc roots ids e)
  then show ?case
    using flagCycle_no_panic[OF _ findCycle_chain_registered, of reg ident cyc] by simp
next
  case (step reg cyc roots ids regm r)
  have "flagsGrow reg regm" using flagCycle_flagsGrow[OF step.hyps(5)] .
  then show ?case using step flagsGrow_complete[of reg regm] by simp
qed

lemma from_no_panic:
  "flagCyclicDependencies_from reg idents = Some r \<Longrightarrow> complete reg \<Longrightarrow>
     set idents \<subseteq> fst ` set (types reg) \<Longrightarrow>
     (\<exists>reg'. r = Inr reg') \<or> (\<exists>p. r = Inl (CrossPackageCycle p))"
proof (induction idents arbitrary: reg)
  case Nil
  then show ?case by auto
next
  case (Cons ident idents)
  obtain r1 where r1: "flagCyclicDependencies_loop reg ident = Some r1"
    using loop_terminates by blast
  have ok: "(\<exists>reg'. r1 = Inr reg') \<or> (\<exists>p. r1 = Inl (CrossPackageCycle p))"
    using loop_no_panic[OF r1] Cons.prems by simp
  show ?case
  proof (cases r1)
    case (Inl e)
    then show ?thesis using r1 ok Cons.prems(1) by auto
  next
    case (Inr regm)
    have "flagsGrow reg regm" using loop_flagsGrow[OF r1 Inr] .
    then show ?thesis
      using Cons.IH[of regm] Cons.prems r1 Inr flagsGrow_complete[of reg regm] by simp
  qed
qed

section \<open>The chains that the cycle phase finds\<close>


text \<open>A chain touches more than one package root when two of its members have different ones.\<close>

definition crossesRoots :: "typeRegistry \<Rightarrow> Identifier list \<Rightarrow> bool" where
  "crossesRoots reg cyc \<longleftrightarrow>
     (\<exists>a \<in> set cyc. \<exists>b \<in> set cyc. PackageRoot_reg reg a \<noteq> PackageRoot_reg reg b)"


text \<open>
  \<open>detects reg idents regk cyc\<close>: when the cycle phase runs from the registry \<open>reg\<close> over the
  start nodes \<open>idents\<close>, it comes to a call of \<open>findCycle\<close> in the registry \<open>regk\<close> that returns
  the chain \<open>cyc\<close>. The first rule is the call at hand, the second a round of the inner loop
  that flags a chain of one package root and searches again from the same start node, the third
  the step to the next start node when nothing is found.
\<close>

inductive detects :: "typeRegistry \<Rightarrow> Identifier list \<Rightarrow> typeRegistry \<Rightarrow> Identifier list \<Rightarrow> bool" where
  found: "findCycle reg ident [] = Inr cyc \<Longrightarrow> cyc \<noteq> [] \<Longrightarrow>
      detects reg (ident # idents) reg cyc"
| again: "findCycle reg ident [] = Inr cyc0 \<Longrightarrow> cyc0 \<noteq> [] \<Longrightarrow>
      \<not> crossesRoots reg cyc0 \<Longrightarrow> flagCycle reg cyc0 = Inr regm \<Longrightarrow>
      detects regm (ident # idents) regk cyc \<Longrightarrow> detects reg (ident # idents) regk cyc"
| onward: "findCycle reg ident [] = Inr [] \<Longrightarrow>
      detects reg idents regk cyc \<Longrightarrow> detects reg (ident # idents) regk cyc"







section \<open>What the cycle search reports\<close>

text \<open>
  \<open>reenters p m i\<close>: the ancestor at position \<open>i\<close> of the path \<open>p\<close> has the package path of
  \<open>m\<close>, and a later ancestor has a different one.
\<close>

definition reenters :: "Path \<Rightarrow> Identifier \<Rightarrow> nat \<Rightarrow> bool" where
  "reenters p m i \<longleftrightarrow>
     i < length p \<and> PackagePath (p ! i) = PackagePath m \<and>
     (\<exists>j. i < j \<and> j < length p \<and> PackagePath (p ! j) \<noteq> PackagePath m)"

lemma IntroducesCycle_loop_spec:
  assumes "k \<le> length p"
    and "b \<longleftrightarrow> (\<forall>j. k \<le> j \<and> j < length p \<longrightarrow> PackagePath (p ! j) = PackagePath m)"
  shows "(IntroducesCycle_loop p m (PackagePath m) k b = [] \<and> (\<forall>i < k. \<not> reenters p m i)) \<or>
         (\<exists>i < k. reenters p m i \<and> (\<forall>k'. i < k' \<and> k' < k \<longrightarrow> \<not> reenters p m k') \<and>
             IntroducesCycle_loop p m (PackagePath m) k b = drop i p @ [m])"
  using assms
proof (induction k arbitrary: b)
  case 0
  then show ?case by simp
next
  case (Suc k)
  have k: "k < length p" using Suc.prems(1) by simp
  show ?case
  proof (cases "PackagePath (p ! k) = PackagePath m")
    case False
    have notk: "\<not> reenters p m k" using False by (simp add: reenters_def)
    have "False \<longleftrightarrow> (\<forall>j. k \<le> j \<and> j < length p \<longrightarrow> PackagePath (p ! j) = PackagePath m)"
      using False k by auto
    from Suc.IH[OF _ this] k
    have "(IntroducesCycle_loop p m (PackagePath m) k False = [] \<and> (\<forall>i < k. \<not> reenters p m i)) \<or>
         (\<exists>i < k. reenters p m i \<and> (\<forall>k'. i < k' \<and> k' < k \<longrightarrow> \<not> reenters p m k') \<and>
             IntroducesCycle_loop p m (PackagePath m) k False = drop i p @ [m])" by simp
    then show ?thesis
    proof
      assume "IntroducesCycle_loop p m (PackagePath m) k False = [] \<and> (\<forall>i < k. \<not> reenters p m i)"
      then show ?thesis using False notk by (auto simp: less_Suc_eq)
    next
      assume "\<exists>i < k. reenters p m i \<and> (\<forall>k'. i < k' \<and> k' < k \<longrightarrow> \<not> reenters p m k') \<and>
             IntroducesCycle_loop p m (PackagePath m) k False = drop i p @ [m]"
      then obtain i where "i < k" "reenters p m i" "\<forall>k'. i < k' \<and> k' < k \<longrightarrow> \<not> reenters p m k'"
        "IntroducesCycle_loop p m (PackagePath m) k False = drop i p @ [m]" by blast
      then have "i < Suc k \<and> reenters p m i \<and> (\<forall>k'. i < k' \<and> k' < Suc k \<longrightarrow> \<not> reenters p m k') \<and>
             IntroducesCycle_loop p m (PackagePath m) (Suc k) b = drop i p @ [m]"
        using False notk by (auto simp: less_Suc_eq)
      then show ?thesis by blast
    qed
  next
    case True
    show ?thesis
    proof (cases b)
      case False
      then obtain j where "Suc k \<le> j" "j < length p" "PackagePath (p ! j) \<noteq> PackagePath m"
        using Suc.prems(2) by auto
      then have "k < j \<and> j < length p \<and> PackagePath (p ! j) \<noteq> PackagePath m" by simp
      then have "reenters p m k" using True k unfolding reenters_def by blast
      moreover have "IntroducesCycle_loop p m (PackagePath m) (Suc k) b = drop k p @ [m]"
        using True False by simp
      ultimately have "k < Suc k \<and> reenters p m k \<and>
          (\<forall>k'. k < k' \<and> k' < Suc k \<longrightarrow> \<not> reenters p m k') \<and>
          IntroducesCycle_loop p m (PackagePath m) (Suc k) b = drop k p @ [m]" by auto
      then show ?thesis by blast
    next
      case b: True
      then have all: "\<forall>j. Suc k \<le> j \<and> j < length p \<longrightarrow> PackagePath (p ! j) = PackagePath m"
        using Suc.prems(2) by simp
      then have notk: "\<not> reenters p m k" by (auto simp: reenters_def)
      have "\<forall>j. k \<le> j \<and> j < length p \<longrightarrow> PackagePath (p ! j) = PackagePath m"
      proof (intro allI impI)
        fix j
        assume "k \<le> j \<and> j < length p"
        then show "PackagePath (p ! j) = PackagePath m" using all True by (cases "j = k") auto
      qed
      then have "b \<longleftrightarrow> (\<forall>j. k \<le> j \<and> j < length p \<longrightarrow> PackagePath (p ! j) = PackagePath m)"
        using b by simp
      from Suc.IH[OF _ this] k
      have "(IntroducesCycle_loop p m (PackagePath m) k b = [] \<and> (\<forall>i < k. \<not> reenters p m i)) \<or>
         (\<exists>i < k. reenters p m i \<and> (\<forall>k'. i < k' \<and> k' < k \<longrightarrow> \<not> reenters p m k') \<and>
             IntroducesCycle_loop p m (PackagePath m) k b = drop i p @ [m])" by simp
      then show ?thesis
      proof
        assume "IntroducesCycle_loop p m (PackagePath m) k b = [] \<and> (\<forall>i < k. \<not> reenters p m i)"
        then show ?thesis using True b notk by (auto simp: less_Suc_eq)
      next
        assume "\<exists>i < k. reenters p m i \<and> (\<forall>k'. i < k' \<and> k' < k \<longrightarrow> \<not> reenters p m k') \<and>
             IntroducesCycle_loop p m (PackagePath m) k b = drop i p @ [m]"
        then obtain i where "i < k" "reenters p m i" "\<forall>k'. i < k' \<and> k' < k \<longrightarrow> \<not> reenters p m k'"
          "IntroducesCycle_loop p m (PackagePath m) k b = drop i p @ [m]" by blast
        then have "i < Suc k \<and> reenters p m i \<and> (\<forall>k'. i < k' \<and> k' < Suc k \<longrightarrow> \<not> reenters p m k') \<and>
             IntroducesCycle_loop p m (PackagePath m) (Suc k) b = drop i p @ [m]"
          using True b notk by (auto simp: less_Suc_eq)
        then show ?thesis by blast
      qed
    qed
  qed
qed

lemma reenters_bound: "reenters p m i \<Longrightarrow> i < length p"
  by (simp add: reenters_def)

lemma IntroducesCycle_spec:
  "(IntroducesCycle p m = [] \<and> (\<forall>i. \<not> reenters p m i)) \<or>
   (\<exists>i. reenters p m i \<and> (\<forall>k. i < k \<longrightarrow> \<not> reenters p m k) \<and>
        IntroducesCycle p m = drop i p @ [m])"
proof -
  have spec: "(IntroducesCycle_loop p m (PackagePath m) (length p) True = [] \<and>
          (\<forall>i < length p. \<not> reenters p m i)) \<or>
         (\<exists>i < length p. reenters p m i \<and>
             (\<forall>k'. i < k' \<and> k' < length p \<longrightarrow> \<not> reenters p m k') \<and>
             IntroducesCycle_loop p m (PackagePath m) (length p) True = drop i p @ [m])"
    by (rule IntroducesCycle_loop_spec) auto
  then show ?thesis
  proof
    assume "IntroducesCycle_loop p m (PackagePath m) (length p) True = [] \<and>
          (\<forall>i < length p. \<not> reenters p m i)"
    then have "IntroducesCycle p m = [] \<and> (\<forall>i. \<not> reenters p m i)"
      using reenters_bound by (auto simp: IntroducesCycle_def)
    then show ?thesis by blast
  next
    assume "\<exists>i < length p. reenters p m i \<and>
             (\<forall>k'. i < k' \<and> k' < length p \<longrightarrow> \<not> reenters p m k') \<and>
             IntroducesCycle_loop p m (PackagePath m) (length p) True = drop i p @ [m]"
    then obtain i where "reenters p m i"
      "\<forall>k'. i < k' \<and> k' < length p \<longrightarrow> \<not> reenters p m k'"
      "IntroducesCycle p m = drop i p @ [m]" by (auto simp: IntroducesCycle_def)
    then have "reenters p m i \<and> (\<forall>k. i < k \<longrightarrow> \<not> reenters p m k) \<and>
        IntroducesCycle p m = drop i p @ [m]"
      using reenters_bound by blast
    then show ?thesis by blast
  qed
qed

lemma IntroducesCycle_empty_iff: "IntroducesCycle p m = [] \<longleftrightarrow> (\<forall>i. \<not> reenters p m i)"
  using IntroducesCycle_spec[of p m] by auto

text \<open>
  \<open>visits reg n path m p\<close>: the traversal that \<open>findCycle reg n path\<close> starts comes, if it is not
  cut short by a chain found earlier, to the call \<open>findCycle reg m p\<close>. It descends from a node
  that closes no chain and is not on the path into those inner types whose flag is not set.
\<close>

inductive visits :: "typeRegistry \<Rightarrow> Identifier \<Rightarrow> Path \<Rightarrow> Identifier \<Rightarrow> Path \<Rightarrow> bool" where
  here: "visits reg n path n path"
| below: "IntroducesCycle path n = [] \<Longrightarrow> \<not> SeenNode path n \<Longrightarrow> get reg n = Inr node \<Longrightarrow>
      c \<in> set (InnerTypes (Type node)) \<Longrightarrow> IsCyclic_reg reg c = Inr False \<Longrightarrow>
      visits reg c (Add path n) m p \<Longrightarrow> visits reg n path m p"

lemma findCycle_sound:
  "findCycle reg n path = Inr cyc \<Longrightarrow> cyc \<noteq> [] \<Longrightarrow>
     \<exists>m p. visits reg n path m p \<and> cyc = IntroducesCycle p m"
  "findCycle_children reg cs newPath = Inr cyc' \<Longrightarrow> cyc' \<noteq> [] \<Longrightarrow>
     \<exists>c \<in> set cs. IsCyclic_reg reg c = Inr False \<and>
        (\<exists>m p. visits reg c newPath m p \<and> cyc' = IntroducesCycle p m)"
proof (induction reg n path and reg cs newPath arbitrary: cyc and cyc'
    rule: findCycle_findCycle_children.induct)
  case (1 reg nextNode path)
  show ?case
  proof (cases "IntroducesCycle path nextNode = []")
    case False
    then have "cyc = IntroducesCycle path nextNode"
      using "1.prems" by (simp add: findCycle.simps Let_def)
    then show ?thesis using visits.here by blast
  next
    case True
    then have unseen: "\<not> SeenNode path nextNode"
      using "1.prems" by (auto simp: findCycle.simps Let_def split: if_splits)
    then obtain node where node: "get reg nextNode = Inr node"
      using "1.prems" True by (cases "get reg nextNode") (auto simp: findCycle.simps Let_def)
    have kids: "findCycle_children reg (InnerTypes (Type node)) (Add path nextNode) = Inr cyc"
      using "1.prems" True unseen node by (simp add: findCycle.simps Let_def)
    obtain c m p where "c \<in> set (InnerTypes (Type node))" "IsCyclic_reg reg c = Inr False"
      "visits reg c (Add path nextNode) m p" "cyc = IntroducesCycle p m"
      using "1.IH"[OF refl _ unseen node kids "1.prems"(2)] True by auto
    then show ?thesis using visits.below[OF True unseen node] by blast
  qed
next
  case (2 reg newPath)
  then show ?case by simp
next
  case (3 reg c cs newPath)
  from "3.prems" obtain cyclic where cyclic: "IsCyclic_reg reg c = Inr cyclic"
    by (cases "IsCyclic_reg reg c") auto
  show ?case
  proof (cases cyclic)
    case True
    then have "findCycle_children reg cs newPath = Inr cyc'" using "3.prems" cyclic by simp
    then show ?thesis using "3.IH"(3)[OF cyclic _ _ "3.prems"(2)] True by auto
  next
    case False
    from "3.prems" cyclic False obtain p where p: "findCycle reg c newPath = Inr p"
      by (cases "findCycle reg c newPath") auto
    show ?thesis
    proof (cases "p = []")
      case True
      then have "findCycle_children reg cs newPath = Inr cyc'"
        using "3.prems" cyclic False p by simp
      then show ?thesis using "3.IH"(2)[OF cyclic False p _ _ "3.prems"(2)] True by auto
    next
      case nonempty: False
      then have eq: "cyc' = p" using "3.prems" cyclic False p by simp
      show ?thesis using "3.IH"(1)[OF cyclic False p nonempty] cyclic False eq by auto
    qed
  qed
qed

lemma findCycle_complete:
  "findCycle reg n path = Inr [] \<Longrightarrow> visits reg n path m p \<Longrightarrow> IntroducesCycle p m = []"
  "findCycle_children reg cs newPath = Inr [] \<Longrightarrow> c' \<in> set cs \<Longrightarrow>
     IsCyclic_reg reg c' = Inr False \<Longrightarrow> visits reg c' newPath m' p' \<Longrightarrow>
     IntroducesCycle p' m' = []"
proof (induction reg n path and reg cs newPath arbitrary: m p and c' m' p'
    rule: findCycle_findCycle_children.induct)
  case (1 reg nextNode path)
  have empty: "IntroducesCycle path nextNode = []"
    using "1.prems"(1) by (auto simp: findCycle.simps Let_def split: if_splits)
  from "1.prems"(2) show ?case
  proof (cases rule: visits.cases)
    case here
    then show ?thesis using empty by simp
  next
    case (below node c)
    have "findCycle_children reg (InnerTypes (Type node)) (Add path nextNode) = Inr []"
      using "1.prems"(1) empty below(2,3) by (simp add: findCycle.simps Let_def)
    then show ?thesis using "1.IH"[OF refl _ below(2,3) _ below(4,5,6)] empty by simp
  qed
next
  case (2 reg newPath)
  then show ?case by simp
next
  case (3 reg c cs newPath)
  from "3.prems"(1) obtain cyclic where cyclic: "IsCyclic_reg reg c = Inr cyclic"
    by (cases "IsCyclic_reg reg c") auto
  show ?case
  proof (cases cyclic)
    case True
    then have rest: "findCycle_children reg cs newPath = Inr []" using "3.prems"(1) cyclic by simp
    have "c' \<in> set cs" using "3.prems"(2,3) cyclic True by auto
    then show ?thesis using "3.IH"(3)[OF cyclic _ rest _ "3.prems"(3,4)] True by simp
  next
    case False
    from "3.prems"(1) cyclic False obtain q where q: "findCycle reg c newPath = Inr q"
      by (cases "findCycle reg c newPath") auto
    then have qe: "q = []" using "3.prems"(1) cyclic False by (auto split: if_splits)
    then have rest: "findCycle_children reg cs newPath = Inr []"
      using "3.prems"(1) cyclic False q by simp
    show ?thesis
    proof (cases "c' = c")
      case True
      then show ?thesis using "3.IH"(1)[OF cyclic False q[unfolded qe]] "3.prems"(4) by simp
    next
      case neq: False
      then have "c' \<in> set cs" using "3.prems"(2) by simp
      then show ?thesis using "3.IH"(2)[OF cyclic False q _ rest _ "3.prems"(3,4)] qe by simp
    qed
  qed
qed

section \<open>What flagging reaches\<close>




















section \<open>The run of the cycle phase and the chains it finds\<close>









section \<open>Remediation keeps the flags\<close>

lemma overridesOnly_get:
  assumes "overridesOnly reg reg'" and "get reg' k = Inr t'"
  shows "\<exists>t. get reg k = Inr t \<and> Type t' = Type t \<and> PackageRoot t' = PackageRoot t \<and>
            IsCyclic t' = IsCyclic t"
  using list_all2_map_of[where R = renamed and al = "types reg" and al' = "types reg'" and k = k]
    assms by (auto simp: overridesOnly_def renamed_def get_Inr_iff)

lemma overridesOnly_get_None:
  assumes "overridesOnly reg reg'"
  shows "map_of (types reg) k = None \<longleftrightarrow> map_of (types reg') k = None"
  using list_all2_map_of[where R = renamed and al = "types reg" and al' = "types reg'" and k = k]
    assms by (auto simp: overridesOnly_def renamed_def)

lemma overridesOnly_get':
  assumes "overridesOnly reg reg'" and "get reg k = Inr t"
  shows "\<exists>t'. get reg' k = Inr t' \<and> Type t' = Type t \<and> PackageRoot t' = PackageRoot t \<and>
            IsCyclic t' = IsCyclic t"
proof -
  have "map_of (types reg') k \<noteq> None"
    using overridesOnly_get_None[OF assms(1), of k] assms(2) by (simp add: get_Inr_iff)
  then obtain t' where t': "get reg' k = Inr t'" by (auto simp: get_Inr_iff)
  then show ?thesis using overridesOnly_get[OF assms(1) t'] assms(2) by auto
qed

lemma overridesOnly_IsCyclic:
  assumes "overridesOnly reg reg'"
  shows "IsCyclic_reg reg' k = IsCyclic_reg reg k" and "PackageRoot_reg reg' k = PackageRoot_reg reg k"
proof -
  show "IsCyclic_reg reg' k = IsCyclic_reg reg k"
  proof (cases "map_of (types reg) k")
    case None
    then show ?thesis using overridesOnly_get_None[OF assms, of k]
      by (simp add: IsCyclic_reg_def get_def)
  next
    case (Some t)
    then have "get reg k = Inr t" by (simp add: get_Inr_iff)
    then show ?thesis using overridesOnly_get'[OF assms, of k t] by (auto simp: IsCyclic_reg_def)
  qed
  show "PackageRoot_reg reg' k = PackageRoot_reg reg k"
  proof (cases "map_of (types reg) k")
    case None
    then show ?thesis using overridesOnly_get_None[OF assms, of k]
      by (simp add: PackageRoot_reg_def get_def)
  next
    case (Some t)
    then have "get reg k = Inr t" by (simp add: get_Inr_iff)
    then show ?thesis using overridesOnly_get'[OF assms, of k t] by (auto simp: PackageRoot_reg_def)
  qed
qed





inductive_cases detects_ConsE: "detects reg (ident # idents) regk cyc"

inductive_cases detects_NilE: "detects reg [] regk cyc"

lemma innerEdges_code [code]:
  "innerEdges reg =
     set (concat (map (\<lambda>p. map (\<lambda>b. (fst p, b)) (InnerTypes (Type (snd p)))) (types reg)))"
  by (force simp: innerEdges_def)

section \<open>The override name\<close>

text \<open>
  The name that \<open>remediateConflictingNames\<close> computes for an identifier, and the same name in the
  words of the spec: the last dot-separated segment of the namespace, followed by the short
  name, with the first byte upper-cased.
\<close>

definition overrideName :: "Identifier \<Rightarrow> error + string" where
  "overrideName ident =
     ExportedIdentifier
       (drop (nat (LastIndex (Namespace ident) ''.'' + 1)) (Namespace ident) @ Name ident)"

definition lastSegment :: "string \<Rightarrow> string" where
  "lastSegment ns = rev (takeWhile (\<lambda>c. c \<noteq> CHR ''.'') (rev ns))"

definition capitalized :: "string \<Rightarrow> string" where
  "capitalized s = ToUpper (take 1 s) @ drop 1 s"

lemma LastIndex_from_append:
  "k \<le> length xs \<Longrightarrow> LastIndex_from (xs @ [c]) ''.'' k = LastIndex_from xs ''.'' k"
proof (induction k)
  case 0
  then show ?case by simp
next
  case (Suc k)
  then have "k < length xs" by simp
  then have "take 1 (drop k (xs @ [c])) = take 1 (drop k xs)"
    by (simp add: drop_append take_Suc_conv_app_nth Cons_nth_drop_Suc[symmetric])
  then show ?case using Suc by simp
qed

lemma LastIndex_from_bounds: "- 1 \<le> LastIndex_from s ''.'' k \<and> LastIndex_from s ''.'' k < int k"
  by (induction k) auto

lemma LastIndex_snoc:
  "LastIndex (xs @ [c]) ''.'' = (if c = CHR ''.'' then int (length xs) else LastIndex xs ''.'')"
  by (simp add: LastIndex_def LastIndex_from_append)

lemma LastIndex_bounds: "- 1 \<le> LastIndex s ''.'' \<and> LastIndex s ''.'' < int (length s)"
  using LastIndex_from_bounds[of s "length s"] by (simp add: LastIndex_def)

lemma drop_LastIndex: "drop (nat (LastIndex ns ''.'' + 1)) ns = lastSegment ns"
proof (induction ns rule: rev_induct)
  case Nil
  then show ?case by (simp add: lastSegment_def)
next
  case (snoc c xs)
  show ?case
  proof (cases "c = CHR ''.''")
    case True
    then show ?thesis by (simp add: LastIndex_snoc lastSegment_def nat_add_distrib)
  next
    case False
    have "nat (LastIndex xs ''.'' + 1) \<le> length xs" using LastIndex_bounds[of xs] by linarith
    then show ?thesis using False snoc by (simp add: LastIndex_snoc lastSegment_def)
  qed
qed

lemma overrideName_spec:
  "overrideName ident =
     (if lastSegment (Namespace ident) @ Name ident = [] then Inl PanicSliceBounds
      else Inr (capitalized (lastSegment (Namespace ident) @ Name ident)))"
  by (simp add: overrideName_def ExportedIdentifier_def drop_LastIndex capitalized_def)

section \<open>The groups of one package root\<close>

text \<open>The group stored under a lower-cased name, empty when there is none.\<close>

definition groupOf :: "(string \<times> IdentifierSet) list \<Rightarrow> string \<Rightarrow> IdentifierSet" where
  "groupOf ct name = (case map_of ct name of None \<Rightarrow> [] | Some v \<Rightarrow> v)"

definition groupsOk :: "(string \<times> IdentifierSet) list \<Rightarrow> bool" where
  "groupsOk ct \<longleftrightarrow> distinct (map fst ct) \<and> (\<forall>name v. map_of ct name = Some v \<longrightarrow> distinct v \<and> v \<noteq> [])"

lemma Add_set_props: "set (Add_set s i) = insert i (set s)" "distinct s \<Longrightarrow> distinct (Add_set s i)"
  "Add_set s i \<noteq> []"
  by (auto simp: Add_set_def)

lemma group_step:
  fixes ct :: "(string \<times> IdentifierSet) list" and name :: string and i :: Identifier
  assumes "groupsOk ct"
  defines "ct1 \<equiv> (case map_of ct name of None \<Rightarrow> AList.update name [] ct | Some _ \<Rightarrow> ct)"
  defines "members \<equiv> (case map_of ct1 name of None \<Rightarrow> [] | Some s \<Rightarrow> s)"
  defines "ct2 \<equiv> AList.update name (Add_set members i) ct1"
  shows "groupsOk ct2"
    and "groupOf ct2 n = (if n = name then Add_set (groupOf ct name) i else groupOf ct n)"
proof -
  have m: "members = groupOf ct name"
    by (auto simp: members_def ct1_def groupOf_def update_conv' split: option.splits)
  have map2: "map_of ct2 = (map_of ct)(name \<mapsto> Add_set (groupOf ct name) i)"
    by (auto simp: ct2_def ct1_def m update_conv' split: option.splits)
  have d: "distinct (map fst ct2)"
    using assms(1) by (auto simp: ct2_def ct1_def groupsOk_def distinct_update split: option.splits)
  have g: "distinct (groupOf ct name)"
    using assms(1) by (auto simp: groupsOk_def groupOf_def split: option.splits)
  show "groupsOk ct2"
    unfolding groupsOk_def using d assms(1) g
    by (auto simp: map2 groupsOk_def Add_set_props)
  show "groupOf ct2 n = (if n = name then Add_set (groupOf ct name) i else groupOf ct n)"
    by (simp add: groupOf_def map2)
qed

lemma groupCyclic_spec:
  "groupCyclic reg members ct0 = Inr ct \<Longrightarrow> groupsOk ct0 \<Longrightarrow>
     groupsOk ct \<and>
     (\<forall>name. set (groupOf ct name) =
         set (groupOf ct0 name) \<union>
         {i \<in> set members. IsCyclic_reg reg i = Inr True \<and> ToLower (Name i) = name})"
proof (induction members arbitrary: ct0)
  case Nil
  then show ?case by simp
next
  case (Cons i members)
  from Cons.prems(1) obtain cyclic where cyc: "IsCyclic_reg reg i = Inr cyclic"
    by (cases "IsCyclic_reg reg i") auto
  show ?case
  proof (cases cyclic)
    case False
    then have "groupCyclic reg members ct0 = Inr ct" using Cons.prems(1) cyc by simp
    then show ?thesis using Cons.IH[OF _ Cons.prems(2)] cyc False by auto
  next
    case True
    define name where "name = ToLower (Name i)"
    define ct1 where "ct1 = (case map_of ct0 name of None \<Rightarrow> AList.update name [] ct0 | Some _ \<Rightarrow> ct0)"
    define ms where "ms = (case map_of ct1 name of None \<Rightarrow> [] | Some s \<Rightarrow> s)"
    define ct2 where "ct2 = AList.update name (Add_set ms i) ct1"
    have rest: "groupCyclic reg members ct2 = Inr ct"
      using Cons.prems(1) cyc True unfolding ct2_def ms_def ct1_def name_def
      by (simp add: Let_def)
    have ok2: "groupsOk ct2"
      and g2: "\<And>n. groupOf ct2 n = (if n = name then Add_set (groupOf ct0 name) i else groupOf ct0 n)"
      using group_step[OF Cons.prems(2), of name i] by (simp_all add: ct2_def ms_def ct1_def)
    have ih: "groupsOk ct \<and>
     (\<forall>n. set (groupOf ct n) =
         set (groupOf ct2 n) \<union>
         {i \<in> set members. IsCyclic_reg reg i = Inr True \<and> ToLower (Name i) = n})"
      using Cons.IH[OF rest ok2] .
    show ?thesis
    proof (intro conjI allI)
      show "groupsOk ct" using ih by simp
      fix n
      show "set (groupOf ct n) = set (groupOf ct0 n) \<union>
         {j \<in> set (i # members). IsCyclic_reg reg j = Inr True \<and> ToLower (Name j) = n}"
        using ih g2[of n] cyc True by (auto simp: Add_set_props name_def)
    qed
  qed
qed

lemma groupCyclic_groups:
  assumes "groupCyclic reg members [] = Inr ct"
  shows "distinct (map fst ct)"
    and "(name, v) \<in> set ct \<Longrightarrow> distinct v \<and> v \<noteq> [] \<and>
           set v = {i \<in> set members. IsCyclic_reg reg i = Inr True \<and> ToLower (Name i) = name}"
    and "i \<in> set members \<Longrightarrow> IsCyclic_reg reg i = Inr True \<Longrightarrow>
           \<exists>v. (ToLower (Name i), v) \<in> set ct \<and> i \<in> set v"
proof -
  have ok0: "groupsOk []" by (simp add: groupsOk_def)
  have spec: "groupsOk ct" "\<And>name. set (groupOf ct name) =
         {i \<in> set members. IsCyclic_reg reg i = Inr True \<and> ToLower (Name i) = name}"
    using groupCyclic_spec[OF assms ok0] by (simp_all add: groupOf_def)
  show d: "distinct (map fst ct)" using spec(1) by (simp add: groupsOk_def)
  show "distinct v \<and> v \<noteq> [] \<and>
           set v = {i \<in> set members. IsCyclic_reg reg i = Inr True \<and> ToLower (Name i) = name}"
    if "(name, v) \<in> set ct"
  proof -
    have m: "map_of ct name = Some v" using that d by simp
    then have "groupOf ct name = v" by (simp add: groupOf_def)
    then show ?thesis using spec(2)[of name] spec(1) m by (auto simp: groupsOk_def)
  qed
  show "\<exists>v. (ToLower (Name i), v) \<in> set ct \<and> i \<in> set v"
    if "i \<in> set members" "IsCyclic_reg reg i = Inr True"
  proof -
    have "i \<in> set (groupOf ct (ToLower (Name i)))" using spec(2)[of "ToLower (Name i)"] that by simp
    then obtain v where "map_of ct (ToLower (Name i)) = Some v" "i \<in> set v"
      by (cases "map_of ct (ToLower (Name i))") (auto simp: groupOf_def)
    then show ?thesis using map_of_SomeD by fastforce
  qed
qed

section \<open>Renaming one group\<close>

text \<open>An identifier is overridden when the registry holds its override name.\<close>

definition overridden :: "typeRegistry \<Rightarrow> Identifier \<Rightarrow> bool" where
  "overridden reg k \<longleftrightarrow> overrideName k = Inr (TypeNameOverride_reg reg k)"

lemma renameGroup_Cons:
  "renameGroup reg (ident # idents) overrides =
    (case overrideName ident of
       Inl e \<Rightarrow> Inl e
     | Inr override \<Rightarrow>
         (case get reg ident of
            Inl e \<Rightarrow> Inl e
          | Inr rt \<Rightarrow>
              (case map_of overrides override of
                 Some conflict \<Rightarrow>
                   Inl (RenameConflict (FullName ident) (Namespace ident) override (FullName conflict))
               | None \<Rightarrow>
                   renameGroup
                     (reg\<lparr>types := AList.update ident (rt\<lparr>TypeNameOverride := override\<rparr>) (types reg)\<rparr>)
                     idents (AList.update override ident overrides))))"
  by (simp add: overrideName_def Let_def split: sum.splits)

lemma TypeNameOverride_rename:
  "TypeNameOverride_reg
     (reg\<lparr>types := AList.update ident (rt\<lparr>TypeNameOverride := override\<rparr>) (types reg)\<rparr>) k =
   (if k = ident then override else TypeNameOverride_reg reg k)"
  by (simp add: TypeNameOverride_reg_def update_conv')

lemma renameGroup_success:
  "renameGroup reg v ov0 = Inr reg' \<Longrightarrow>
     (\<forall>i \<in> set v. overridden reg' i) \<and>
     (\<forall>k. TypeNameOverride_reg reg' k = TypeNameOverride_reg reg k \<or> overridden reg' k) \<and>
     distinct (map overrideName v) \<and>
     (\<forall>i \<in> set v. \<exists>ov. overrideName i = Inr ov \<and> map_of ov0 ov = None)"
proof (induction v arbitrary: reg ov0)
  case Nil
  then show ?case by simp
next
  case (Cons ident idents)
  from Cons.prems obtain ov rt where ov: "overrideName ident = Inr ov"
    and rt: "get reg ident = Inr rt" and free: "map_of ov0 ov = None"
    and rest: "renameGroup
                 (reg\<lparr>types := AList.update ident (rt\<lparr>TypeNameOverride := ov\<rparr>) (types reg)\<rparr>)
                 idents (AList.update ov ident ov0) = Inr reg'"
    unfolding renameGroup_Cons by (auto split: sum.splits option.splits)
  define reg1 where
    "reg1 = reg\<lparr>types := AList.update ident (rt\<lparr>TypeNameOverride := ov\<rparr>) (types reg)\<rparr>"
  have t1: "TypeNameOverride_reg reg1 k = (if k = ident then ov else TypeNameOverride_reg reg k)" for k
    unfolding reg1_def by (rule TypeNameOverride_rename)
  note ih = Cons.IH[OF rest[folded reg1_def]]
  have ih1: "\<forall>i \<in> set idents. overridden reg' i" using ih by (rule conjunct1)
  have ih2: "TypeNameOverride_reg reg' k = TypeNameOverride_reg reg1 k \<or> overridden reg' k" for k
    using ih[THEN conjunct2, THEN conjunct1] by (rule spec)
  have ih3: "distinct (map overrideName idents)"
    using ih[THEN conjunct2, THEN conjunct2] by (rule conjunct1)
  have ih4: "\<forall>i \<in> set idents. \<exists>o'. overrideName i = Inr o' \<and>
      map_of (AList.update ov ident ov0) o' = None"
    using ih[THEN conjunct2, THEN conjunct2] by (rule conjunct2)
  have a: "overridden reg' ident"
    using ih2[of ident] t1[of ident] ov by (auto simp: overridden_def)
  have b: "TypeNameOverride_reg reg' k = TypeNameOverride_reg reg k \<or> overridden reg' k" for k
  proof (cases "k = ident")
    case True
    then show ?thesis using a by simp
  next
    case False
    then show ?thesis using ih2[of k] t1[of k] by auto
  qed
  have later: "\<exists>o'. overrideName i = Inr o' \<and> o' \<noteq> ov \<and> map_of ov0 o' = None"
    if i: "i \<in> set idents" for i
  proof -
    obtain o' where o': "overrideName i = Inr o'" "map_of (AList.update ov ident ov0) o' = None"
      using ih4 i by blast
    have "o' \<noteq> ov" using o'(2) by (auto simp: update_conv')
    moreover have "map_of ov0 o' = None" using o'(2) by (auto simp: update_conv' split: if_splits)
    ultimately show ?thesis using o'(1) by blast
  qed
  have "overrideName ident \<notin> set (map overrideName idents)"
  proof
    assume "overrideName ident \<in> set (map overrideName idents)"
    then obtain i where "i \<in> set idents" "overrideName i = overrideName ident" by auto
    then show False using later[of i] ov by auto
  qed
  then have d: "distinct (map overrideName (ident # idents))" using ih3 by simp
  have e: "\<forall>i \<in> set (ident # idents). \<exists>o'. overrideName i = Inr o' \<and> map_of ov0 o' = None"
  proof
    fix i
    assume "i \<in> set (ident # idents)"
    then consider "i = ident" | "i \<in> set idents" by auto
    then show "\<exists>o'. overrideName i = Inr o' \<and> map_of ov0 o' = None"
    proof cases
      case 1
      then show ?thesis using ov free by simp
    next
      case 2
      then show ?thesis using later[of i] by blast
    qed
  qed
  have f: "\<forall>i \<in> set (ident # idents). overridden reg' i" using a ih1 by simp
  show ?case using f b d e by blast
qed

lemma overrideName_Inl: "overrideName i = Inl e \<Longrightarrow> e = PanicSliceBounds"
  by (auto simp: overrideName_spec split: if_splits)

lemma get_Inl: "get reg i = Inl e \<Longrightarrow> e = PanicUnknownType (FullName i)"
  by (auto simp: get_def split: option.splits)

lemma renameGroup_conflict:
  "renameGroup reg v ov0 = Inl (RenameConflict fn ns ov fc) \<Longrightarrow> distinct v \<Longrightarrow>
     \<exists>a conflict. a \<in> set v \<and> fn = FullName a \<and> ns = Namespace a \<and> overrideName a = Inr ov \<and>
        fc = FullName conflict \<and>
        (map_of ov0 ov = Some conflict \<or>
         (conflict \<in> set v \<and> conflict \<noteq> a \<and> overrideName conflict = Inr ov))"
proof (induction v arbitrary: reg ov0)
  case Nil
  then show ?case by simp
next
  case (Cons ident idents)
  from Cons.prems(1) obtain o1 where o1: "overrideName ident = Inr o1"
    unfolding renameGroup_Cons by (cases "overrideName ident") (auto dest: overrideName_Inl)
  from Cons.prems(1) o1 obtain rt where rt: "get reg ident = Inr rt"
    unfolding renameGroup_Cons by (cases "get reg ident") (auto dest: get_Inl)
  show ?case
  proof (cases "map_of ov0 o1")
    case (Some c)
    then have "fn = FullName ident \<and> ns = Namespace ident \<and> ov = o1 \<and> fc = FullName c"
      using Cons.prems(1) o1 rt unfolding renameGroup_Cons by simp
    then show ?thesis using Some o1 by auto
  next
    case None
    then have rest: "renameGroup
                 (reg\<lparr>types := AList.update ident (rt\<lparr>TypeNameOverride := o1\<rparr>) (types reg)\<rparr>)
                 idents (AList.update o1 ident ov0) = Inl (RenameConflict fn ns ov fc)"
      using Cons.prems(1) o1 rt unfolding renameGroup_Cons by simp
    have dist: "distinct idents" and fresh: "ident \<notin> set idents" using Cons.prems(2) by auto
    obtain a conflict where a: "a \<in> set idents" "fn = FullName a" "ns = Namespace a"
      "overrideName a = Inr ov" "fc = FullName conflict"
      and c: "map_of (AList.update o1 ident ov0) ov = Some conflict \<or>
         (conflict \<in> set idents \<and> conflict \<noteq> a \<and> overrideName conflict = Inr ov)"
      using Cons.IH[OF rest dist] by blast
    have "map_of ov0 ov = Some conflict \<or>
         (conflict \<in> set (ident # idents) \<and> conflict \<noteq> a \<and> overrideName conflict = Inr ov)"
      using c o1 a(1) fresh by (auto simp: update_conv' split: if_splits)
    then show ?thesis using a by auto
  qed
qed

lemma renameGroup_no_panic:
  "renameGroup reg v ov0 = Inl e \<Longrightarrow>
     \<forall>i \<in> set v. i \<in> fst ` set (types reg) \<and> (\<exists>ov. overrideName i = Inr ov) \<Longrightarrow>
     \<exists>fn ns ov fc. e = RenameConflict fn ns ov fc"
proof (induction v arbitrary: reg ov0)
  case Nil
  then show ?case by simp
next
  case (Cons ident idents)
  obtain o1 where o1: "overrideName ident = Inr o1" using Cons.prems(2) by auto
  obtain rt where rt: "get reg ident = Inr rt" using get_registered[of ident reg] Cons.prems(2) by auto
  define reg1 where
    "reg1 = reg\<lparr>types := AList.update ident (rt\<lparr>TypeNameOverride := o1\<rparr>) (types reg)\<rparr>"
  have keys: "fst ` set (types reg1) = fst ` set (types reg)"
    using skeleton_keys[OF overridesOnly_skeleton[OF overridesOnly_rename[OF rt, of o1]]]
    by (simp add: reg1_def)
  show ?case
  proof (cases "map_of ov0 o1")
    case (Some c)
    then show ?thesis using Cons.prems(1) o1 rt unfolding renameGroup_Cons by auto
  next
    case None
    then have "renameGroup reg1 idents (AList.update o1 ident ov0) = Inl e"
      using Cons.prems(1) o1 rt unfolding renameGroup_Cons reg1_def by simp
    then show ?thesis using Cons.IH[of reg1] Cons.prems(2) keys by auto
  qed
qed

section \<open>Renaming all groups of all package roots\<close>

text \<open>
  \<open>renamedTo reg reg'\<close>: every identifier has in \<open>reg'\<close> the override it had in \<open>reg\<close>, or its
  override name.
\<close>

definition renamedTo :: "typeRegistry \<Rightarrow> typeRegistry \<Rightarrow> bool" where
  "renamedTo reg reg' \<longleftrightarrow>
     (\<forall>k. TypeNameOverride_reg reg' k = TypeNameOverride_reg reg k \<or> overridden reg' k)"

lemma renamedTo_refl: "renamedTo reg reg"
  by (simp add: renamedTo_def)

lemma renamedTo_keeps: "renamedTo reg reg' \<Longrightarrow> overridden reg k \<Longrightarrow> overridden reg' k"
  unfolding renamedTo_def overridden_def by metis

lemma renamedTo_trans:
  assumes "renamedTo r1 r2" and "renamedTo r2 r3"
  shows "renamedTo r1 r3"
  unfolding renamedTo_def
proof
  fix k
  have a: "TypeNameOverride_reg r2 k = TypeNameOverride_reg r1 k \<or> overridden r2 k"
    using assms(1) by (simp add: renamedTo_def)
  have b: "TypeNameOverride_reg r3 k = TypeNameOverride_reg r2 k \<or> overridden r3 k"
    using assms(2) by (simp add: renamedTo_def)
  show "TypeNameOverride_reg r3 k = TypeNameOverride_reg r1 k \<or> overridden r3 k"
    using a b renamedTo_keeps[OF assms(2), of k] by auto
qed

lemma renameGroup_renamedTo: "renameGroup reg v ov0 = Inr reg' \<Longrightarrow> renamedTo reg reg'"
  using renameGroup_success[of reg v ov0 reg'] by (simp add: renamedTo_def)

lemma renameGroups_success:
  "renameGroups reg ct = Inr reg' \<Longrightarrow>
     renamedTo reg reg' \<and>
     (\<forall>(name, v) \<in> set ct. length v \<noteq> 1 \<longrightarrow>
         (\<forall>i \<in> set v. overridden reg' i) \<and> distinct (map overrideName v))"
proof (induction reg ct rule: renameGroups.induct)
  case (1 reg)
  then show ?case by (simp add: renamedTo_refl)
next
  case (2 reg name v rest)
  show ?case
  proof (cases "length v = 1")
    case True
    then show ?thesis using 2 by simp
  next
    case False
    then obtain regm where g: "renameGroup reg v [] = Inr regm"
      and r: "renameGroups regm rest = Inr reg'"
      using "2.prems" by (auto split: sum.splits)
    have ih: "renamedTo regm reg'"
      "\<forall>(name, v) \<in> set rest. length v \<noteq> 1 \<longrightarrow>
         (\<forall>i \<in> set v. overridden reg' i) \<and> distinct (map overrideName v)"
      using "2.IH"(2)[OF False g r] by simp_all
    have s: "\<forall>i \<in> set v. overridden regm i" "distinct (map overrideName v)"
      using renameGroup_success[OF g] by simp_all
    have "\<forall>i \<in> set v. overridden reg' i" using s(1) renamedTo_keeps[OF ih(1)] by blast
    moreover have "renamedTo reg reg'"
      using renamedTo_trans[OF renameGroup_renamedTo[OF g] ih(1)] .
    ultimately show ?thesis using ih(2) s(2) by simp
  qed
qed

lemma renameGroups_conflict:
  "renameGroups reg ct = Inl (RenameConflict fn ns ov fc) \<Longrightarrow>
     \<forall>(name, v) \<in> set ct. distinct v \<Longrightarrow>
     \<exists>(name, v) \<in> set ct. \<exists>a conflict. a \<in> set v \<and> conflict \<in> set v \<and> conflict \<noteq> a \<and>
        overrideName a = Inr ov \<and> overrideName conflict = Inr ov \<and>
        fn = FullName a \<and> ns = Namespace a \<and> fc = FullName conflict"
proof (induction reg ct rule: renameGroups.induct)
  case (1 reg)
  then show ?case by simp
next
  case (2 reg name v rest)
  show ?case
  proof (cases "length v = 1")
    case True
    then show ?thesis using 2 by simp
  next
    case False
    show ?thesis
    proof (cases "renameGroup reg v []")
      case (Inl e)
      then have e: "renameGroup reg v [] = Inl (RenameConflict fn ns ov fc)"
        using "2.prems"(1) False by simp
      have "distinct v" using "2.prems"(2) by simp
      then obtain a conflict where "a \<in> set v" "conflict \<in> set v" "conflict \<noteq> a"
        "overrideName a = Inr ov" "overrideName conflict = Inr ov"
        "fn = FullName a" "ns = Namespace a" "fc = FullName conflict"
        using renameGroup_conflict[OF e] by auto
      then show ?thesis by auto
    next
      case (Inr regm)
      then have "renameGroups regm rest = Inl (RenameConflict fn ns ov fc)"
        using "2.prems"(1) False by simp
      then show ?thesis using "2.IH"(2)[OF False Inr] "2.prems"(2) by auto
    qed
  qed
qed

lemma overridesOnly_keys: "overridesOnly reg reg' \<Longrightarrow> fst ` set (types reg') = fst ` set (types reg)"
  using skeleton_keys[OF overridesOnly_skeleton] by simp

lemma renameGroups_no_panic:
  "renameGroups reg ct = Inl e \<Longrightarrow>
     \<forall>(name, v) \<in> set ct. \<forall>i \<in> set v. i \<in> fst ` set (types reg) \<and> (\<exists>ov. overrideName i = Inr ov) \<Longrightarrow>
     \<exists>fn ns ov fc. e = RenameConflict fn ns ov fc"
proof (induction reg ct rule: renameGroups.induct)
  case (1 reg)
  then show ?case by simp
next
  case (2 reg name v rest)
  show ?case
  proof (cases "length v = 1")
    case True
    then show ?thesis using 2 by simp
  next
    case False
    show ?thesis
    proof (cases "renameGroup reg v []")
      case (Inl e')
      then have "e' = e" using "2.prems"(1) False by simp
      then show ?thesis using renameGroup_no_panic[OF Inl] "2.prems"(2) by simp
    next
      case (Inr regm)
      then have r: "renameGroups regm rest = Inl e" using "2.prems"(1) False by simp
      have "fst ` set (types regm) = fst ` set (types reg)"
        using overridesOnly_keys[OF renameGroup_overridesOnly[OF Inr]] .
      then show ?thesis using "2.IH"(2)[OF False Inr r] "2.prems"(2) by simp
    qed
  qed
qed

text \<open>
  Two members of a package root are in the same group when they are different identifiers, both
  flagged, with the same lower-cased name.
\<close>

definition sameGroup :: "typeRegistry \<Rightarrow> IdentifierSet \<Rightarrow> Identifier \<Rightarrow> Identifier \<Rightarrow> bool" where
  "sameGroup reg members a b \<longleftrightarrow>
     a \<in> set members \<and> b \<in> set members \<and> a \<noteq> b \<and>
     IsCyclic_reg reg a = Inr True \<and> IsCyclic_reg reg b = Inr True \<and>
     ToLower (Name a) = ToLower (Name b)"

lemma sameGroup_group:
  assumes "groupCyclic reg members [] = Inr ct" and "sameGroup reg members a b"
  shows "\<exists>name v. (name, v) \<in> set ct \<and> a \<in> set v \<and> b \<in> set v \<and> length v \<noteq> 1 \<and> distinct v"
proof -
  have a: "a \<in> set members" "IsCyclic_reg reg a = Inr True"
    and b: "b \<in> set members" "IsCyclic_reg reg b = Inr True"
    and ne: "a \<noteq> b" and nm: "ToLower (Name a) = ToLower (Name b)"
    using assms(2) by (simp_all add: sameGroup_def)
  obtain v where v: "(ToLower (Name a), v) \<in> set ct" "a \<in> set v"
    using groupCyclic_groups(3)[OF assms(1) a] by blast
  have sv: "distinct v"
    "set v = {i \<in> set members. IsCyclic_reg reg i = Inr True \<and> ToLower (Name i) = ToLower (Name a)}"
    using groupCyclic_groups(2)[OF assms(1) v(1)] by simp_all
  have bv: "b \<in> set v" using sv(2) b nm by simp
  have "length v \<noteq> 1"
  proof
    assume "length v = 1"
    then obtain x where "v = [x]" by (cases v) auto
    then show False using v(2) bv ne by simp
  qed
  then show ?thesis using v bv sv(1) by blast
qed

lemma group_sameGroup:
  assumes "groupCyclic reg members [] = Inr ct" and "(name, v) \<in> set ct"
    and "a \<in> set v" and "b \<in> set v" and "a \<noteq> b"
  shows "sameGroup reg members a b"
  using groupCyclic_groups(2)[OF assms(1,2)] assms(3-5) by (auto simp: sameGroup_def)

lemma overridesOnly_sameGroup:
  "overridesOnly reg reg' \<Longrightarrow> sameGroup reg' members a b = sameGroup reg members a b"
  by (simp add: sameGroup_def overridesOnly_IsCyclic(1))

lemma remediateRoots_success:
  "remediateRoots reg rs = Inr reg' \<Longrightarrow>
     renamedTo reg reg' \<and>
     (\<forall>(root, members) \<in> set rs. \<forall>a b. sameGroup reg members a b \<longrightarrow>
         overridden reg' a \<and> overrideName a \<noteq> overrideName b)"
proof (induction reg rs rule: remediateRoots.induct)
  case (1 reg)
  then show ?case by (simp add: renamedTo_refl)
next
  case (2 reg root members rest)
  then obtain ct regm where ct: "groupCyclic reg members [] = Inr ct"
    and regm: "renameGroups reg ct = Inr regm" and r: "remediateRoots regm rest = Inr reg'"
    by (auto split: sum.splits)
  have ih: "renamedTo regm reg'"
    "\<forall>(root, members) \<in> set rest. \<forall>a b. sameGroup regm members a b \<longrightarrow>
         overridden reg' a \<and> overrideName a \<noteq> overrideName b"
    using "2.IH"[OF ct regm r] by simp_all
  have only: "overridesOnly reg regm" using renameGroups_overridesOnly[OF regm] .
  have gs: "renamedTo reg regm"
    "\<forall>(name, v) \<in> set ct. length v \<noteq> 1 \<longrightarrow>
         (\<forall>i \<in> set v. overridden regm i) \<and> distinct (map overrideName v)"
    using renameGroups_success[OF regm] by simp_all
  have head: "overridden reg' a \<and> overrideName a \<noteq> overrideName b"
    if sg: "sameGroup reg members a b" for a b
  proof -
    obtain name v where v: "(name, v) \<in> set ct" "a \<in> set v" "b \<in> set v" "length v \<noteq> 1"
      using sameGroup_group[OF ct sg] by blast
    have o: "\<forall>i \<in> set v. overridden regm i" and d: "distinct (map overrideName v)"
      using gs(2) v(1,4) by auto
    have "a \<noteq> b" using sg by (simp add: sameGroup_def)
    then have "overrideName a \<noteq> overrideName b"
      using d v(2,3) by (meson distinct_map inj_onD)
    moreover have "overridden reg' a" using o v(2) renamedTo_keeps[OF ih(1)] by blast
    ultimately show ?thesis by simp
  qed
  have tail: "\<forall>(root, members) \<in> set rest. \<forall>a b. sameGroup reg members a b \<longrightarrow>
         overridden reg' a \<and> overrideName a \<noteq> overrideName b"
    using ih(2) overridesOnly_sameGroup[OF only] by simp
  show ?case using head tail renamedTo_trans[OF gs(1) ih(1)] by simp
qed

lemma IsCyclic_reg_Inl: "IsCyclic_reg reg i = Inl e \<Longrightarrow> e = PanicUnknownType (FullName i)"
  by (auto simp: IsCyclic_reg_def dest: get_Inl split: sum.splits)

lemma groupCyclic_Inl:
  "groupCyclic reg members ct0 = Inl e \<Longrightarrow> \<exists>s. e = PanicUnknownType s"
proof (induction members arbitrary: ct0)
  case Nil
  then show ?case by simp
next
  case (Cons i members)
  show ?case
  proof (cases "IsCyclic_reg reg i")
    case (Inl e')
    then show ?thesis using Cons.prems IsCyclic_reg_Inl[OF Inl] by auto
  next
    case (Inr cyclic)
    then show ?thesis using Cons by (cases cyclic) (auto simp: Let_def)
  qed
qed

lemma groupCyclic_no_panic:
  "\<forall>i \<in> set members. i \<in> fst ` set (types reg) \<Longrightarrow> \<exists>ct. groupCyclic reg members ct0 = Inr ct"
proof (induction members arbitrary: ct0)
  case Nil
  then show ?case by simp
next
  case (Cons i members)
  obtain node where "get reg i = Inr node" using get_registered[of i reg] Cons.prems by auto
  then have "IsCyclic_reg reg i = Inr (IsCyclic node)" by (simp add: IsCyclic_reg_def)
  then show ?case using Cons by (cases "IsCyclic node") (auto simp: Let_def)
qed

lemma remediateRoots_conflict:
  "remediateRoots reg rs = Inl (RenameConflict fn ns ov fc) \<Longrightarrow>
     \<exists>(root, members) \<in> set rs. \<exists>a b. sameGroup reg members a b \<and>
        overrideName a = Inr ov \<and> overrideName b = Inr ov \<and>
        fn = FullName a \<and> ns = Namespace a \<and> fc = FullName b"
proof (induction reg rs rule: remediateRoots.induct)
  case (1 reg)
  then show ?case by simp
next
  case (2 reg root members rest)
  obtain ct where ct: "groupCyclic reg members [] = Inr ct"
    using "2.prems" by (cases "groupCyclic reg members []") (auto dest: groupCyclic_Inl)
  have dist: "\<forall>(name, v) \<in> set ct. distinct v" using groupCyclic_groups(2)[OF ct] by auto
  show ?case
  proof (cases "renameGroups reg ct")
    case (Inl e)
    then have e: "renameGroups reg ct = Inl (RenameConflict fn ns ov fc)"
      using "2.prems" ct by simp
    obtain name v a conflict where "(name, v) \<in> set ct" "a \<in> set v" "conflict \<in> set v"
      "conflict \<noteq> a" "overrideName a = Inr ov" "overrideName conflict = Inr ov"
      "fn = FullName a" "ns = Namespace a" "fc = FullName conflict"
      using renameGroups_conflict[OF e dist] by auto
    then have "sameGroup reg members a conflict \<and> overrideName a = Inr ov \<and>
        overrideName conflict = Inr ov \<and> fn = FullName a \<and> ns = Namespace a \<and> fc = FullName conflict"
      using group_sameGroup[OF ct, of name v a conflict] by auto
    then show ?thesis by auto
  next
    case (Inr regm)
    then have r: "remediateRoots regm rest = Inl (RenameConflict fn ns ov fc)"
      using "2.prems" ct by simp
    have only: "overridesOnly reg regm" using renameGroups_overridesOnly[OF Inr] .
    show ?thesis using "2.IH"[OF ct Inr r] overridesOnly_sameGroup[OF only] by auto
  qed
qed

lemma remediateRoots_no_panic:
  "remediateRoots reg rs = Inl e \<Longrightarrow>
     \<forall>(root, members) \<in> set rs. \<forall>i \<in> set members.
        i \<in> fst ` set (types reg) \<and> (\<exists>ov. overrideName i = Inr ov) \<Longrightarrow>
     \<exists>fn ns ov fc. e = RenameConflict fn ns ov fc"
proof (induction reg rs rule: remediateRoots.induct)
  case (1 reg)
  then show ?case by simp
next
  case (2 reg root members rest)
  have ms: "\<forall>i \<in> set members. i \<in> fst ` set (types reg) \<and> (\<exists>ov. overrideName i = Inr ov)"
    using "2.prems"(2) by simp
  then obtain ct where ct: "groupCyclic reg members [] = Inr ct"
    using groupCyclic_no_panic[of members reg "[]"] by auto
  have sub: "\<forall>(name, v) \<in> set ct. \<forall>i \<in> set v.
      i \<in> fst ` set (types reg) \<and> (\<exists>ov. overrideName i = Inr ov)"
    using groupCyclic_groups(2)[OF ct] ms by auto
  show ?case
  proof (cases "renameGroups reg ct")
    case (Inl e')
    then have "e' = e" using "2.prems"(1) ct by simp
    then show ?thesis using renameGroups_no_panic[OF Inl sub] by simp
  next
    case (Inr regm)
    then have r: "remediateRoots regm rest = Inl e" using "2.prems"(1) ct by simp
    have "fst ` set (types regm) = fst ` set (types reg)"
      using overridesOnly_keys[OF renameGroups_overridesOnly[OF Inr]] .
    then show ?thesis using "2.IH"[OF ct Inr r] "2.prems"(2) by simp
  qed
qed

section \<open>Unmarshalling a record\<close>

text \<open>The keys that \<open>UnmarshalField\<close> has a case for.\<close>

definition recognized :: "string \<Rightarrow> bool" where
  "recognized field = (field = ''using'' \<or> field = ''params'' \<or> field = ''versionSuffix'')"

text \<open>
  The read that the setter of the key makes succeeds on the value; a key without a setter reads
  nothing.
\<close>

definition readable :: "string \<Rightarrow> wire \<Rightarrow> bool" where
  "readable field v =
    (if field = ''using'' \<or> field = ''versionSuffix'' then \<not> isl (ReadString (Unread v))
     else if field = ''params'' then \<not> isl (ReadMap_strings (Unread v))
     else True)"

text \<open>The value of the last entry with the key, if there is one.\<close>

definition lastValue :: "(string \<times> wire) list \<Rightarrow> string \<Rightarrow> wire option" where
  "lastValue kvs key = map_of (rev kvs) key"

lemma lastValue_Nil: "lastValue [] key = None"
  by (simp add: lastValue_def)

lemma lastValue_snoc:
  "lastValue (kvs @ [(k, v)]) key = (if key = k then Some v else lastValue kvs key)"
  by (simp add: lastValue_def)

text \<open>A read that succeeds leaves the value consumed.\<close>

lemma ReadString_Consumed:
  "ReadString reader = Inr (s, reader') \<Longrightarrow> reader' = Consumed"
  by (auto simp: ReadString_def split: Reader.splits wire.splits)

lemma ReadMap_Consumed:
  "ReadMap reader f a = Inr (a', reader') \<Longrightarrow> reader' = Consumed"
  by (auto simp: ReadMap_def split: Reader.splits wire.splits sum.splits)

lemma ReadString_error:
  "ReadString reader = Inl err \<Longrightarrow> err = DeserializationError"
  by (auto simp: ReadString_def split: Reader.splits wire.splits)

lemma readEntries_strings_error:
  "readEntries (\<lambda>m reader key.
         case ReadString reader of
           Inl err \<Rightarrow> Inl err
         | Inr (s, reader') \<Rightarrow> Inr (AList.update key s m, reader')) m kvs = Inl err
   \<Longrightarrow> err = DeserializationError"
proof (induction kvs arbitrary: m)
  case Nil
  then show ?case by simp
next
  case (Cons kv kvs)
  obtain k v where kv: "kv = (k, v)" by (cases kv)
  show ?case
  proof (cases "ReadString (Unread v)")
    case (Inl e)
    with Cons.prems kv ReadString_error[OF Inl] show ?thesis by simp
  next
    case (Inr p)
    obtain s r where p: "p = (s, r)" by (cases p)
    from Inr p have r: "r = Consumed" by (auto dest: ReadString_Consumed)
    from Cons.prems kv Inr p r Cons.IH show ?thesis by simp
  qed
qed

lemma ReadMap_strings_error:
  "ReadMap_strings reader = Inl err \<Longrightarrow> err = DeserializationError"
  unfolding ReadMap_strings_def ReadMap_def
  by (auto split: Reader.splits wire.splits sum.splits dest: readEntries_strings_error)

lemma callback_unknown:
  "\<not> recognized field \<Longrightarrow> UnmarshalRestLi_callback e (Unread v) field = Inr (e, Consumed)"
  by (simp add: UnmarshalRestLi_callback_def UnmarshalField_def recognized_def Skip_def)

lemma callback_using:
  "UnmarshalRestLi_callback e reader ''using'' =
     (case ReadString reader of
        Inl err \<Rightarrow> Inl err | Inr (s, reader') \<Rightarrow> Inr (e\<lparr>Using := Some s\<rparr>, reader'))"
  by (simp add: UnmarshalRestLi_callback_def UnmarshalField_def split: sum.splits prod.splits)

lemma callback_params:
  "UnmarshalRestLi_callback e reader ''params'' =
     (case ReadMap_strings reader of
        Inl err \<Rightarrow> Inl err | Inr (m, reader') \<Rightarrow> Inr (e\<lparr>Params := Some m\<rparr>, reader'))"
  by (simp add: UnmarshalRestLi_callback_def UnmarshalField_def split: sum.splits prod.splits)

lemma callback_versionSuffix:
  "UnmarshalRestLi_callback e reader ''versionSuffix'' =
     (case ReadString reader of
        Inl err \<Rightarrow> Inl err | Inr (s, reader') \<Rightarrow> Inr (e\<lparr>VersionSuffix := Some s\<rparr>, reader'))"
  by (simp add: UnmarshalRestLi_callback_def UnmarshalField_def split: sum.splits prod.splits)

text \<open>One entry: the callback succeeds exactly on a readable value, and then has consumed it.\<close>

lemma callback_cases:
  "(readable field v \<and> (\<exists>e'. UnmarshalRestLi_callback e (Unread v) field = Inr (e', Consumed))) \<or>
   (\<not> readable field v \<and> UnmarshalRestLi_callback e (Unread v) field = Inl DeserializationError)"
proof (cases "recognized field")
  case False
  then show ?thesis by (simp add: callback_unknown readable_def recognized_def)
next
  case True
  then consider "field = ''using''" | "field = ''params''" | "field = ''versionSuffix''"
    by (auto simp: recognized_def)
  then show ?thesis
  proof cases
    case 1
    show ?thesis
    proof (cases "ReadString (Unread v)")
      case (Inl err)
      with 1 ReadString_error[OF Inl] show ?thesis by (simp add: readable_def callback_using)
    next
      case (Inr p)
      obtain s r where p: "p = (s, r)" by (cases p)
      from Inr p have "r = Consumed" by (auto dest: ReadString_Consumed)
      with 1 Inr p show ?thesis by (simp add: readable_def callback_using)
    qed
  next
    case 2
    show ?thesis
    proof (cases "ReadMap_strings (Unread v)")
      case (Inl err)
      with 2 ReadMap_strings_error[OF Inl] show ?thesis by (simp add: readable_def callback_params)
    next
      case (Inr p)
      obtain m r where p: "p = (m, r)" by (cases p)
      from Inr p have "r = Consumed" by (auto simp: ReadMap_strings_def dest: ReadMap_Consumed)
      with 2 Inr p show ?thesis by (simp add: readable_def callback_params)
    qed
  next
    case 3
    show ?thesis
    proof (cases "ReadString (Unread v)")
      case (Inl err)
      with 3 ReadString_error[OF Inl] show ?thesis
        by (simp add: readable_def callback_versionSuffix)
    next
      case (Inr p)
      obtain s r where p: "p = (s, r)" by (cases p)
      from Inr p have "r = Consumed" by (auto dest: ReadString_Consumed)
      with 3 Inr p show ?thesis by (simp add: readable_def callback_versionSuffix)
    qed
  qed
qed

lemma callback_readable:
  "readable field v \<Longrightarrow> \<exists>e'. UnmarshalRestLi_callback e (Unread v) field = Inr (e', Consumed)"
  using callback_cases[of field v e] by blast

lemma callback_unreadable:
  "\<not> readable field v \<Longrightarrow> UnmarshalRestLi_callback e (Unread v) field = Inl DeserializationError"
  using callback_cases[of field v e] by blast

lemma readEntries_snoc:
  "readEntries f a (kvs @ [(k, v)]) =
     (case readEntries f a kvs of
        Inl err \<Rightarrow> Inl err
      | Inr a' \<Rightarrow>
          (case f a' (Unread v) k of
             Inl err \<Rightarrow> Inl err
           | Inr (a'', reader) \<Rightarrow>
               (case reader of Consumed \<Rightarrow> Inr a'' | Unread _ \<Rightarrow> Inl DeserializationError)))"
  by (induction kvs arbitrary: a) (auto split: sum.splits prod.splits Reader.splits)

text \<open>The fields of the record that the setters leave behind.\<close>

definition dispatched :: "ExtensionSchemaAnnotation \<Rightarrow> (string \<times> wire) list
    \<Rightarrow> ExtensionSchemaAnnotation \<Rightarrow> bool" where
  "dispatched e kvs e' \<longleftrightarrow>
     (\<forall>v s r. lastValue kvs ''using'' = Some v \<and> ReadString (Unread v) = Inr (s, r)
        \<longrightarrow> Using e' = Some s) \<and>
     (lastValue kvs ''using'' = None \<longrightarrow> Using e' = Using e) \<and>
     (\<forall>v m r. lastValue kvs ''params'' = Some v \<and> ReadMap_strings (Unread v) = Inr (m, r)
        \<longrightarrow> Params e' = Some m) \<and>
     (lastValue kvs ''params'' = None \<longrightarrow> Params e' = Params e) \<and>
     (\<forall>v s r. lastValue kvs ''versionSuffix'' = Some v \<and> ReadString (Unread v) = Inr (s, r)
        \<longrightarrow> VersionSuffix e' = Some s) \<and>
     (lastValue kvs ''versionSuffix'' = None \<longrightarrow> VersionSuffix e' = VersionSuffix e)"

lemma dispatched_step:
  assumes d: "dispatched e kvs e1"
    and cb: "UnmarshalRestLi_callback e1 (Unread v) k = Inr (e', r')"
  shows "dispatched e (kvs @ [(k, v)]) e'"
proof (cases "recognized k")
  case False
  with cb have "e' = e1" by (simp add: callback_unknown)
  moreover from False have "k \<noteq> ''using''" "k \<noteq> ''params''" "k \<noteq> ''versionSuffix''"
    by (auto simp: recognized_def)
  ultimately show ?thesis
    using d unfolding dispatched_def lastValue_snoc by auto
next
  case True
  then consider "k = ''using''" | "k = ''params''" | "k = ''versionSuffix''"
    by (auto simp: recognized_def)
  then show ?thesis
  proof cases
    case 1
    with cb obtain s where "ReadString (Unread v) = Inr (s, r')" "e' = e1\<lparr>Using := Some s\<rparr>"
      by (auto simp: callback_using split: sum.splits)
    with 1 d show ?thesis unfolding dispatched_def lastValue_snoc by auto
  next
    case 2
    with cb obtain m where "ReadMap_strings (Unread v) = Inr (m, r')" "e' = e1\<lparr>Params := Some m\<rparr>"
      by (auto simp: callback_params split: sum.splits)
    with 2 d show ?thesis unfolding dispatched_def lastValue_snoc by auto
  next
    case 3
    with cb obtain s where "ReadString (Unread v) = Inr (s, r')"
      "e' = e1\<lparr>VersionSuffix := Some s\<rparr>"
      by (auto simp: callback_versionSuffix split: sum.splits)
    with 3 d show ?thesis unfolding dispatched_def lastValue_snoc by auto
  qed
qed

lemma readEntries_dispatched:
  assumes "\<forall>(k, v) \<in> set kvs. readable k v"
  shows "\<exists>e'. readEntries UnmarshalRestLi_callback e kvs = Inr e' \<and> dispatched e kvs e'"
  using assms
proof (induction kvs rule: rev_induct)
  case Nil
  show ?case by (simp add: dispatched_def lastValue_Nil)
next
  case (snoc kv kvs)
  obtain k v where kv: "kv = (k, v)" by (cases kv)
  from snoc obtain e1 where e1: "readEntries UnmarshalRestLi_callback e kvs = Inr e1"
    and d1: "dispatched e kvs e1" by auto
  from snoc.prems kv have rd: "readable k v" by simp
  from callback_readable[OF rd, of e1] obtain e' where
    cb: "UnmarshalRestLi_callback e1 (Unread v) k = Inr (e', Consumed)" by blast
  have "readEntries UnmarshalRestLi_callback e (kvs @ [kv]) = Inr e'"
    by (simp add: kv readEntries_snoc e1 cb)
  moreover have "dispatched e (kvs @ [kv]) e'"
    unfolding kv by (rule dispatched_step[OF d1 cb])
  ultimately show ?case by blast
qed

text \<open>An entry whose value cannot be read makes the reader fail, with the error of the read.\<close>

lemma readEntries_unreadable:
  assumes "\<not> (\<forall>(k, v) \<in> set kvs. readable k v)"
  shows "readEntries UnmarshalRestLi_callback e kvs = Inl DeserializationError"
  using assms
proof (induction kvs arbitrary: e)
  case Nil
  then show ?case by simp
next
  case (Cons kv kvs)
  obtain k v where kv: "kv = (k, v)" by (cases kv)
  show ?case
  proof (cases "readable k v")
    case False
    then show ?thesis by (simp add: kv callback_unreadable)
  next
    case True
    from callback_readable[OF True, of e] obtain e' where
      cb: "UnmarshalRestLi_callback e (Unread v) k = Inr (e', Consumed)" by blast
    from Cons.prems kv True have "\<not> (\<forall>(k, v) \<in> set kvs. readable k v)" by simp
    from Cons.IH[OF this, of e'] show ?thesis by (simp add: kv cb)
  qed
qed

text \<open>Entries with a key that has no setter change nothing.\<close>

lemma readEntries_skip_unknown:
  "readEntries UnmarshalRestLi_callback e (filter (\<lambda>(k, v). recognized k) kvs) =
   readEntries UnmarshalRestLi_callback e kvs"
proof (induction kvs arbitrary: e)
  case Nil
  show ?case by simp
next
  case (Cons kv kvs)
  obtain k v where kv: "kv = (k, v)" by (cases kv)
  show ?case
  proof (cases "recognized k")
    case True
    then show ?thesis by (simp add: kv Cons.IH split: sum.splits prod.splits Reader.splits)
  next
    case False
    then show ?thesis by (simp add: kv Cons.IH callback_unknown)
  qed
qed

lemma readEntries_only_unknown:
  "\<forall>(k, v) \<in> set kvs. \<not> recognized k \<Longrightarrow> readEntries UnmarshalRestLi_callback e kvs = Inr e"
  by (induction kvs) (auto simp: callback_unknown)

text \<open>The keys that \<open>ReadRecord\<close> has marked after the last entry are the keys of the input.\<close>

lemma readEntries_marking:
  "readEntries (\<lambda>(a, found) reader field.
               case f a reader field of
                 Inl err \<Rightarrow> Inl err
               | Inr (a', reader') \<Rightarrow> Inr ((a', field # found), reader')) (a, found) kvs =
   (case readEntries f a kvs of
      Inl err \<Rightarrow> Inl err
    | Inr a' \<Rightarrow> Inr (a', rev (map fst kvs) @ found))"
proof (induction kvs arbitrary: a found)
  case Nil
  show ?case by simp
next
  case (Cons kv kvs)
  obtain k v where kv: "kv = (k, v)" by (cases kv)
  show ?case
    by (simp add: kv Cons.IH split: sum.splits prod.splits Reader.splits)
qed

lemma ReadRecord_entries:
  "ReadRecord (Unread (WMap kvs)) required f a =
     (case readEntries f a kvs of
        Inl err \<Rightarrow> Inl err
      | Inr a' \<Rightarrow>
          (case filter (\<lambda>r. r \<notin> fst ` set kvs) required of
             [] \<Rightarrow> Inr (a', Consumed)
           | r # _ \<Rightarrow> Inl (MissingRequiredField r)))"
  by (simp add: ReadRecord_def ReadMap_def readEntries_marking split: sum.splits)

lemma ReadRecord_required:
  assumes "readEntries f a kvs = Inr a'"
  shows "set required \<subseteq> fst ` set kvs \<Longrightarrow>
      ReadRecord (Unread (WMap kvs)) required f a = Inr (a', Consumed)"
    and "\<not> set required \<subseteq> fst ` set kvs \<Longrightarrow>
      \<exists>r. r \<in> set required \<and> r \<notin> fst ` set kvs \<and>
          ReadRecord (Unread (WMap kvs)) required f a = Inl (MissingRequiredField r)"
proof -
  assume "set required \<subseteq> fst ` set kvs"
  then have "filter (\<lambda>r. r \<notin> fst ` set kvs) required = []"
    by (auto simp: filter_empty_conv)
  then show "ReadRecord (Unread (WMap kvs)) required f a = Inr (a', Consumed)"
    by (simp add: ReadRecord_entries assms)
next
  assume "\<not> set required \<subseteq> fst ` set kvs"
  then have "filter (\<lambda>r. r \<notin> fst ` set kvs) required \<noteq> []"
    by (auto simp: filter_empty_conv)
  then obtain r rs where f: "filter (\<lambda>r. r \<notin> fst ` set kvs) required = r # rs"
    by (cases "filter (\<lambda>r. r \<notin> fst ` set kvs) required") auto
  then have "r \<in> set (filter (\<lambda>r. r \<notin> fst ` set kvs) required)" by simp
  then have "r \<in> set required" "r \<notin> fst ` set kvs" by auto
  moreover have "ReadRecord (Unread (WMap kvs)) required f a = Inl (MissingRequiredField r)"
    by (simp add: ReadRecord_entries assms f)
  ultimately show "\<exists>r. r \<in> set required \<and> r \<notin> fst ` set kvs \<and>
          ReadRecord (Unread (WMap kvs)) required f a = Inl (MissingRequiredField r)" by blast
qed

lemma ReadRecord_unreadable:
  assumes "readEntries f a kvs = Inl err"
  shows "ReadRecord (Unread (WMap kvs)) required f a = Inl err"
  by (simp add: ReadRecord_entries assms)

lemma UnmarshalRestLi_entries:
  "UnmarshalRestLi e (Unread (WMap kvs)) =
     (case readEntries UnmarshalRestLi_callback e kvs of
        Inl err \<Rightarrow> Inl err | Inr e' \<Rightarrow> Inr (e', Consumed))"
  by (simp add: UnmarshalRestLi_def ReadRecord_entries ExtensionSchemaAnnotationRequiredFields_def
      split: sum.splits)

section \<open>Marshalling and unmarshalling a patch\<close>

text \<open>A field is marked for deletion; a field has a value to set.\<close>

definition isDeleted :: "ExtensionSchemaAnnotation_PartialUpdate_Delete_Fields \<Rightarrow> string \<Rightarrow> bool" where
  "isDeleted d field =
    (field = ''using'' \<and> Delete_Using d \<or> field = ''params'' \<and> Delete_Params d \<or>
     field = ''versionSuffix'' \<and> Delete_VersionSuffix d)"

definition isSet :: "ExtensionSchemaAnnotation_PartialUpdate_Set_Fields \<Rightarrow> string \<Rightarrow> bool" where
  "isSet s field =
    (field = ''using'' \<and> Set_Using s \<noteq> None \<or> field = ''params'' \<and> Set_Params s \<noteq> None \<or>
     field = ''versionSuffix'' \<and> Set_VersionSuffix s \<noteq> None)"

text \<open>The fields that are in both sections of the patch, in the order in which they are checked.\<close>

definition conflicts :: "ExtensionSchemaAnnotation_PartialUpdate \<Rightarrow> string list" where
  "conflicts e =
     filter (\<lambda>field. isDeleted (Delete_Fields e) field \<and> isSet (Set_Fields e) field)
       [''using'', ''params'', ''versionSuffix'']"

lemma isDeleted_known:
  "isDeleted d field \<Longrightarrow> field \<in> set [''using'', ''params'', ''versionSuffix'']"
  unfolding isDeleted_def by (elim disjE conjE) simp_all

lemma set_conflicts:
  "field \<in> set (conflicts e) \<longleftrightarrow>
     isDeleted (Delete_Fields e) field \<and> isSet (Set_Fields e) field"
proof
  assume "field \<in> set (conflicts e)"
  then show "isDeleted (Delete_Fields e) field \<and> isSet (Set_Fields e) field"
    by (simp only: conflicts_def set_filter mem_Collect_eq)
next
  assume h: "isDeleted (Delete_Fields e) field \<and> isSet (Set_Fields e) field"
  then have "field \<in> set [''using'', ''params'', ''versionSuffix'']"
    using isDeleted_known by blast
  with h show "field \<in> set (conflicts e)"
    by (simp only: conflicts_def set_filter mem_Collect_eq)
qed

lemma checkFields_eq:
  "checkFields e =
    (if Delete_Using (Delete_Fields e) \<and> Set_Using (Set_Fields e) \<noteq> None then
       Inl (PatchConflict ''com.linkedin.restli.common.ExtensionSchemaAnnotation'' ''using'')
     else if Delete_Params (Delete_Fields e) \<and> Set_Params (Set_Fields e) \<noteq> None then
       Inl (PatchConflict ''com.linkedin.restli.common.ExtensionSchemaAnnotation'' ''params'')
     else if Delete_VersionSuffix (Delete_Fields e) \<and> Set_VersionSuffix (Set_Fields e) \<noteq> None then
       Inl (PatchConflict ''com.linkedin.restli.common.ExtensionSchemaAnnotation'' ''versionSuffix'')
     else
       Inr \<lparr>RecordType = ''com.linkedin.restli.common.ExtensionSchemaAnnotation'',
            HasDeletes = (Delete_Using (Delete_Fields e) \<or> Delete_Params (Delete_Fields e) \<or>
                          Delete_VersionSuffix (Delete_Fields e)),
            HasSets = (Set_Using (Set_Fields e) \<noteq> None \<or> Set_Params (Set_Fields e) \<noteq> None \<or>
                       Set_VersionSuffix (Set_Fields e) \<noteq> None)\<rparr>)"
  by (simp add: checkFields_def CheckField_def Let_def)

lemma conflicts_eq:
  "conflicts e =
    (if Delete_Using (Delete_Fields e) \<and> Set_Using (Set_Fields e) \<noteq> None then [''using''] else []) @
    (if Delete_Params (Delete_Fields e) \<and> Set_Params (Set_Fields e) \<noteq> None then [''params''] else []) @
    (if Delete_VersionSuffix (Delete_Fields e) \<and> Set_VersionSuffix (Set_Fields e) \<noteq> None
     then [''versionSuffix''] else [])"
  by (cases "Delete_Using (Delete_Fields e)"; cases "Set_Using (Set_Fields e)";
      cases "Delete_Params (Delete_Fields e)"; cases "Set_Params (Set_Fields e)";
      cases "Delete_VersionSuffix (Delete_Fields e)"; cases "Set_VersionSuffix (Set_Fields e)";
      simp add: conflicts_def isDeleted_def isSet_def)

lemma isDeleted_simps:
  "isDeleted d ''using'' = Delete_Using d"
  "isDeleted d ''params'' = Delete_Params d"
  "isDeleted d ''versionSuffix'' = Delete_VersionSuffix d"
  by (simp_all add: isDeleted_def)

lemma isSet_simps:
  "isSet s ''using'' = (Set_Using s \<noteq> None)"
  "isSet s ''params'' = (Set_Params s \<noteq> None)"
  "isSet s ''versionSuffix'' = (Set_VersionSuffix s \<noteq> None)"
  by (simp_all add: isSet_def)

lemma anyDeleted_eq:
  "(\<exists>field. isDeleted d field) \<longleftrightarrow> Delete_Using d \<or> Delete_Params d \<or> Delete_VersionSuffix d"
proof
  assume "\<exists>field. isDeleted d field"
  then show "Delete_Using d \<or> Delete_Params d \<or> Delete_VersionSuffix d"
    unfolding isDeleted_def by blast
next
  assume "Delete_Using d \<or> Delete_Params d \<or> Delete_VersionSuffix d"
  then show "\<exists>field. isDeleted d field"
    using isDeleted_simps[of d] by blast
qed

lemma anySet_eq:
  "(\<exists>field. isSet s field) \<longleftrightarrow>
     Set_Using s \<noteq> None \<or> Set_Params s \<noteq> None \<or> Set_VersionSuffix s \<noteq> None"
proof
  assume "\<exists>field. isSet s field"
  then show "Set_Using s \<noteq> None \<or> Set_Params s \<noteq> None \<or> Set_VersionSuffix s \<noteq> None"
    unfolding isSet_def by blast
next
  assume "Set_Using s \<noteq> None \<or> Set_Params s \<noteq> None \<or> Set_VersionSuffix s \<noteq> None"
  then show "\<exists>field. isSet s field"
    using isSet_simps[of s] by blast
qed

lemma checkFields_conflict:
  assumes "conflicts e \<noteq> []"
  shows "checkFields e =
     Inl (PatchConflict ''com.linkedin.restli.common.ExtensionSchemaAnnotation'' (hd (conflicts e)))"
  using assms unfolding checkFields_eq conflicts_eq
  by (cases "Delete_Using (Delete_Fields e)"; cases "Set_Using (Set_Fields e)";
      cases "Delete_Params (Delete_Fields e)"; cases "Set_Params (Set_Fields e)";
      cases "Delete_VersionSuffix (Delete_Fields e)"; cases "Set_VersionSuffix (Set_Fields e)";
      simp)

lemma checkFields_ok:
  assumes "conflicts e = []"
  shows "checkFields e =
     Inr \<lparr>RecordType = ''com.linkedin.restli.common.ExtensionSchemaAnnotation'',
          HasDeletes = (\<exists>field. isDeleted (Delete_Fields e) field),
          HasSets = (\<exists>field. isSet (Set_Fields e) field)\<rparr>"
  using assms unfolding checkFields_eq conflicts_eq anyDeleted_eq anySet_eq
  by (cases "Delete_Using (Delete_Fields e)"; cases "Set_Using (Set_Fields e)";
      cases "Delete_Params (Delete_Fields e)"; cases "Set_Params (Set_Fields e)";
      cases "Delete_VersionSuffix (Delete_Fields e)"; cases "Set_VersionSuffix (Set_Fields e)";
      simp)

text \<open>What the two sections marshal to.\<close>

lemma Delete_MarshalRestLi_array:
  "\<exists>ds. Delete_MarshalRestLi d = Inr (WArray ds) \<and> (ds = [] \<longleftrightarrow> \<not> (\<exists>field. isDeleted d field))"
  unfolding anyDeleted_eq by (simp add: Delete_MarshalRestLi_def)

lemma Set_MarshalRestLi_map:
  "\<exists>ss. Set_MarshalRestLi s = Inr (WMap ss) \<and> (ss = [] \<longleftrightarrow> \<not> (\<exists>field. isSet s field))"
  unfolding anySet_eq
  by (simp add: Set_MarshalRestLi_def Set_MarshalFields_def WriteMap_strings_def
      split: option.splits)

lemma Delete_MarshalRestLi_names:
  "Delete_MarshalRestLi d =
     Inr (WArray (map WString (filter (isDeleted d) [''params'', ''using'', ''versionSuffix''])))"
  by (simp add: Delete_MarshalRestLi_def isDeleted_simps)

lemma Set_MarshalRestLi_keys:
  "Set_MarshalRestLi s = Inr (WMap ss)
     \<Longrightarrow> map fst ss = filter (isSet s) [''params'', ''using'', ''versionSuffix'']"
  by (auto simp: Set_MarshalRestLi_def Set_MarshalFields_def WriteMap_strings_def isSet_simps
      split: option.splits)

lemma MarshalRestLiPatch_ok:
  assumes "conflicts e = []"
  shows "\<exists>ds ss. Delete_MarshalRestLi (Delete_Fields e) = Inr (WArray ds) \<and>
      Set_MarshalRestLi (Set_Fields e) = Inr (WMap ss) \<and>
      ds = map WString (filter (isDeleted (Delete_Fields e))
                          [''params'', ''using'', ''versionSuffix'']) \<and>
      map fst ss = filter (isSet (Set_Fields e)) [''params'', ''using'', ''versionSuffix''] \<and>
      (ds = [] \<longleftrightarrow> \<not> (\<exists>field. isDeleted (Delete_Fields e) field)) \<and>
      (ss = [] \<longleftrightarrow> \<not> (\<exists>field. isSet (Set_Fields e) field)) \<and>
      MarshalRestLiPatch e =
        Inr (WMap ((if ds = [] then [] else [(''$delete'', WArray ds)]) @
                   (if ss = [] then [] else [(''$set'', WMap ss)])))"
proof -
  from Delete_MarshalRestLi_array[of "Delete_Fields e"] obtain ds where
    ds: "Delete_MarshalRestLi (Delete_Fields e) = Inr (WArray ds)"
      "ds = [] \<longleftrightarrow> \<not> (\<exists>field. isDeleted (Delete_Fields e) field)" by blast
  from Set_MarshalRestLi_map[of "Set_Fields e"] obtain ss where
    ss: "Set_MarshalRestLi (Set_Fields e) = Inr (WMap ss)"
      "ss = [] \<longleftrightarrow> \<not> (\<exists>field. isSet (Set_Fields e) field)" by blast
  have dn: "ds = map WString (filter (isDeleted (Delete_Fields e))
                          [''params'', ''using'', ''versionSuffix''])"
    using ds(1) unfolding Delete_MarshalRestLi_names by simp
  note sk = Set_MarshalRestLi_keys[OF ss(1)]
  have "MarshalRestLiPatch e =
        Inr (WMap ((if ds = [] then [] else [(''$delete'', WArray ds)]) @
                   (if ss = [] then [] else [(''$set'', WMap ss)])))"
    unfolding MarshalRestLiPatch_def checkFields_ok[OF assms]
    using ds ss by simp
  with ds ss dn sk show ?thesis by blast
qed

lemma MarshalRestLiPatch_conflict:
  assumes "conflicts e \<noteq> []"
  shows "MarshalRestLiPatch e =
     Inl (PatchConflict ''com.linkedin.restli.common.ExtensionSchemaAnnotation'' (hd (conflicts e)))"
  by (simp add: MarshalRestLiPatch_def checkFields_conflict[OF assms])

lemma UnmarshalRestLiPatch_checked:
  assumes "ReadMap reader UnmarshalRestLiPatch_callback e = Inr (e', reader')"
  shows "conflicts e' \<noteq> [] \<Longrightarrow> UnmarshalRestLiPatch e reader =
       Inl (PatchConflict ''com.linkedin.restli.common.ExtensionSchemaAnnotation'' (hd (conflicts e')))"
    and "conflicts e' = [] \<Longrightarrow> UnmarshalRestLiPatch e reader = Inr (e', reader')"
  by (simp_all add: UnmarshalRestLiPatch_def assms checkFields_conflict checkFields_ok)

lemma conflicts_Nil:
  "conflicts e = [] \<longleftrightarrow>
     \<not> (\<exists>field. isDeleted (Delete_Fields e) field \<and> isSet (Set_Fields e) field)"
proof -
  have "conflicts e = [] \<longleftrightarrow> (\<forall>field. field \<notin> set (conflicts e))" by auto
  then show ?thesis by (simp add: set_conflicts)
qed

lemma hd_conflicts:
  assumes "conflicts e \<noteq> []"
  shows "isDeleted (Delete_Fields e) (hd (conflicts e)) \<and> isSet (Set_Fields e) (hd (conflicts e))"
proof -
  from assms have "hd (conflicts e) \<in> set (conflicts e)" by simp
  then show ?thesis by (simp only: set_conflicts)
qed

section \<open>Where a decoded patch has its marks from\<close>

lemma Delete_callback_result:
  assumes "Delete_UnmarshalRestLi_callback d reader = Inr (d', reader')"
  shows "\<exists>field. ReadString reader = Inr (field, reader') \<and>
     (field = ''using'' \<and> d' = d\<lparr>Delete_Using := True\<rparr> \<or>
      field = ''params'' \<and> d' = d\<lparr>Delete_Params := True\<rparr> \<or>
      field = ''versionSuffix'' \<and> d' = d\<lparr>Delete_VersionSuffix := True\<rparr> \<or>
      \<not> recognized field \<and> d' = d)"
proof (cases "ReadString reader")
  case (Inl err)
  with assms show ?thesis by (simp add: Delete_UnmarshalRestLi_callback_def)
next
  case (Inr p)
  obtain field r where p: "p = (field, r)" by (cases p)
  from assms Inr p have r: "r = reader'"
    and d': "d' = (if field = ''using'' then d\<lparr>Delete_Using := True\<rparr>
              else if field = ''params'' then d\<lparr>Delete_Params := True\<rparr>
              else if field = ''versionSuffix'' then d\<lparr>Delete_VersionSuffix := True\<rparr>
              else d)"
    by (simp_all add: Delete_UnmarshalRestLi_callback_def)
  consider "field = ''using''" | "field = ''params''" | "field = ''versionSuffix''"
    | "\<not> recognized field"
    unfolding recognized_def by blast
  then have "field = ''using'' \<and> d' = d\<lparr>Delete_Using := True\<rparr> \<or>
      field = ''params'' \<and> d' = d\<lparr>Delete_Params := True\<rparr> \<or>
      field = ''versionSuffix'' \<and> d' = d\<lparr>Delete_VersionSuffix := True\<rparr> \<or>
      \<not> recognized field \<and> d' = d"
  proof cases
    case 1
    then show ?thesis using d' by simp
  next
    case 2
    then show ?thesis using d' by simp
  next
    case 3
    then show ?thesis using d' by simp
  next
    case 4
    then have "field \<noteq> ''using''" "field \<noteq> ''params''" "field \<noteq> ''versionSuffix''"
      unfolding recognized_def by blast+
    with 4 d' show ?thesis by simp
  qed
  with Inr p r show ?thesis by blast
qed

lemma Delete_callback_keeps:
  assumes "Delete_UnmarshalRestLi_callback d reader = Inr (d', reader')" and "isDeleted d field"
  shows "isDeleted d' field"
proof -
  from Delete_callback_result[OF assms(1)] have
    "(Delete_Using d \<longrightarrow> Delete_Using d') \<and> (Delete_Params d \<longrightarrow> Delete_Params d') \<and>
     (Delete_VersionSuffix d \<longrightarrow> Delete_VersionSuffix d')"
    by (elim exE conjE disjE) simp_all
  with assms(2) show ?thesis unfolding isDeleted_def by blast
qed

lemma Delete_callback_marks:
  assumes "Delete_UnmarshalRestLi_callback d (Unread (WString field)) = Inr (d', reader')"
    and "recognized field"
  shows "isDeleted d' field"
proof -
  have rs: "ReadString (Unread (WString field)) = Inr (field, Consumed)"
    by (simp add: ReadString_def)
  from Delete_callback_result[OF assms(1)] rs have
    "field = ''using'' \<and> d' = d\<lparr>Delete_Using := True\<rparr> \<or>
      field = ''params'' \<and> d' = d\<lparr>Delete_Params := True\<rparr> \<or>
      field = ''versionSuffix'' \<and> d' = d\<lparr>Delete_VersionSuffix := True\<rparr> \<or>
      \<not> recognized field \<and> d' = d"
    by simp
  with assms(2) consider "field = ''using''" "Delete_Using d'"
    | "field = ''params''" "Delete_Params d'"
    | "field = ''versionSuffix''" "Delete_VersionSuffix d'"
    by (elim disjE conjE) simp_all
  then show ?thesis
    by cases (simp_all add: isDeleted_simps)
qed

lemma readItems_deleted:
  assumes "readItems Delete_UnmarshalRestLi_callback d ds = Inr d'"
    and "isDeleted d field \<or> (WString field \<in> set ds \<and> recognized field)"
  shows "isDeleted d' field"
  using assms
proof (induction ds arbitrary: d)
  case Nil
  then show ?case by simp
next
  case (Cons item ds)
  from Cons.prems(1) obtain d1 r1 where
    d1: "Delete_UnmarshalRestLi_callback d (Unread item) = Inr (d1, r1)"
    and r: "readItems Delete_UnmarshalRestLi_callback d1 ds = Inr d'"
    by (auto split: sum.splits prod.splits Reader.splits)
  have "isDeleted d1 field \<or> (WString field \<in> set ds \<and> recognized field)"
    using Cons.prems(2) Delete_callback_keeps[OF d1] Delete_callback_marks[of d field d1 r1] d1
    by auto
  from Cons.IH[OF r this] show ?case .
qed

lemma Set_callback_using:
  "Set_UnmarshalRestLi_callback s reader ''using'' =
     (case ReadString reader of
        Inl err \<Rightarrow> Inl err | Inr (x, reader') \<Rightarrow> Inr (s\<lparr>Set_Using := Some x\<rparr>, reader'))"
  by (simp add: Set_UnmarshalRestLi_callback_def Set_UnmarshalField_def
      split: sum.splits prod.splits)

lemma Set_callback_params:
  "Set_UnmarshalRestLi_callback s reader ''params'' =
     (case ReadMap_strings reader of
        Inl err \<Rightarrow> Inl err | Inr (m, reader') \<Rightarrow> Inr (s\<lparr>Set_Params := Some m\<rparr>, reader'))"
  by (simp add: Set_UnmarshalRestLi_callback_def Set_UnmarshalField_def
      split: sum.splits prod.splits)

lemma Set_callback_versionSuffix:
  "Set_UnmarshalRestLi_callback s reader ''versionSuffix'' =
     (case ReadString reader of
        Inl err \<Rightarrow> Inl err
      | Inr (x, reader') \<Rightarrow> Inr (s\<lparr>Set_VersionSuffix := Some x\<rparr>, reader'))"
  by (simp add: Set_UnmarshalRestLi_callback_def Set_UnmarshalField_def
      split: sum.splits prod.splits)

lemma Set_callback_unknown:
  "\<not> recognized field \<Longrightarrow> Set_UnmarshalRestLi_callback s reader field =
     (case Skip reader of Inl err \<Rightarrow> Inl err | Inr reader' \<Rightarrow> Inr (s, reader'))"
  by (simp add: Set_UnmarshalRestLi_callback_def Set_UnmarshalField_def recognized_def)

lemma Set_callback_result:
  assumes "Set_UnmarshalRestLi_callback s reader key = Inr (s', reader')"
  shows "key = ''using'' \<and> (\<exists>x. s' = s\<lparr>Set_Using := Some x\<rparr>) \<or>
      key = ''params'' \<and> (\<exists>m. s' = s\<lparr>Set_Params := Some m\<rparr>) \<or>
      key = ''versionSuffix'' \<and> (\<exists>x. s' = s\<lparr>Set_VersionSuffix := Some x\<rparr>) \<or>
      \<not> recognized key \<and> s' = s"
proof -
  consider "key = ''using''" | "key = ''params''" | "key = ''versionSuffix''"
    | "\<not> recognized key"
    unfolding recognized_def by blast
  then show ?thesis
  proof cases
    case 1
    with assms have "\<exists>x. s' = s\<lparr>Set_Using := Some x\<rparr>"
      by (cases "ReadString reader") (auto simp: Set_callback_using)
    with 1 show ?thesis by blast
  next
    case 2
    with assms have "\<exists>m. s' = s\<lparr>Set_Params := Some m\<rparr>"
      by (cases "ReadMap_strings reader") (auto simp: Set_callback_params)
    with 2 show ?thesis by blast
  next
    case 3
    with assms have "\<exists>x. s' = s\<lparr>Set_VersionSuffix := Some x\<rparr>"
      by (cases "ReadString reader") (auto simp: Set_callback_versionSuffix)
    with 3 show ?thesis by blast
  next
    case 4
    with assms have "s' = s"
      by (cases "Skip reader") (simp_all add: Set_callback_unknown)
    with 4 show ?thesis by blast
  qed
qed

lemma Set_callback_keeps:
  assumes "Set_UnmarshalRestLi_callback s reader key = Inr (s', reader')" and "isSet s field"
  shows "isSet s' field"
proof -
  from Set_callback_result[OF assms(1)] have
    "(Set_Using s \<noteq> None \<longrightarrow> Set_Using s' \<noteq> None) \<and>
     (Set_Params s \<noteq> None \<longrightarrow> Set_Params s' \<noteq> None) \<and>
     (Set_VersionSuffix s \<noteq> None \<longrightarrow> Set_VersionSuffix s' \<noteq> None)"
    by (elim exE conjE disjE) simp_all
  with assms(2) show ?thesis unfolding isSet_def by blast
qed

lemma Set_callback_marks:
  assumes "Set_UnmarshalRestLi_callback s reader field = Inr (s', reader')" and "recognized field"
  shows "isSet s' field"
proof -
  from Set_callback_result[OF assms(1)] assms(2)
  consider "field = ''using''" "Set_Using s' \<noteq> None"
    | "field = ''params''" "Set_Params s' \<noteq> None"
    | "field = ''versionSuffix''" "Set_VersionSuffix s' \<noteq> None"
    by (elim exE disjE conjE) simp_all
  then show ?thesis
    by cases (simp_all add: isSet_simps)
qed

lemma readEntries_set:
  assumes "readEntries Set_UnmarshalRestLi_callback s ss = Inr s'"
    and "isSet s field \<or> (field \<in> fst ` set ss \<and> recognized field)"
  shows "isSet s' field"
  using assms
proof (induction ss arbitrary: s)
  case Nil
  then show ?case by simp
next
  case (Cons kv ss)
  obtain k v where kv: "kv = (k, v)" by (cases kv)
  from Cons.prems(1) obtain s1 r1 where
    s1: "Set_UnmarshalRestLi_callback s (Unread v) k = Inr (s1, r1)"
    and r: "readEntries Set_UnmarshalRestLi_callback s1 ss = Inr s'"
    by (auto simp: kv split: sum.splits prod.splits Reader.splits)
  have "isSet s1 field \<or> (field \<in> fst ` set ss \<and> recognized field)"
    using Cons.prems(2) Set_callback_keeps[OF s1] Set_callback_marks[of s "Unread v" field s1 r1] s1
    by (auto simp: kv)
  from Cons.IH[OF r this] show ?case .
qed

lemma Delete_UnmarshalRestLi_deleted:
  assumes "Delete_UnmarshalRestLi d reader = Inr (d', reader')"
  shows "isDeleted d field \<Longrightarrow> isDeleted d' field"
    and "reader = Unread (WArray ds) \<Longrightarrow> WString field \<in> set ds \<Longrightarrow> recognized field
           \<Longrightarrow> isDeleted d' field"
proof -
  from assms obtain items where i: "reader = Unread (WArray items)"
    "readItems Delete_UnmarshalRestLi_callback d items = Inr d'"
    by (auto simp: Delete_UnmarshalRestLi_def ReadArray_def
        split: Reader.splits wire.splits sum.splits)
  show "isDeleted d field \<Longrightarrow> isDeleted d' field"
    using readItems_deleted[OF i(2)] by blast
  show "reader = Unread (WArray ds) \<Longrightarrow> WString field \<in> set ds \<Longrightarrow> recognized field
           \<Longrightarrow> isDeleted d' field"
    using readItems_deleted[OF i(2), of field] i(1) by simp
qed

lemma Set_UnmarshalRestLi_set:
  assumes "Set_UnmarshalRestLi s reader = Inr (s', reader')"
  shows "isSet s field \<Longrightarrow> isSet s' field"
    and "reader = Unread (WMap ss) \<Longrightarrow> field \<in> fst ` set ss \<Longrightarrow> recognized field
           \<Longrightarrow> isSet s' field"
proof -
  from assms obtain entries where i: "reader = Unread (WMap entries)"
    by (auto simp: Set_UnmarshalRestLi_def ReadRecord_def ReadMap_def
        split: Reader.splits wire.splits sum.splits)
  with assms have "readEntries Set_UnmarshalRestLi_callback s entries = Inr s'"
    by (auto simp: Set_UnmarshalRestLi_def ReadRecord_entries
        ExtensionSchemaAnnotation_PartialUpdate_Set_FieldsRequiredFields_def
        split: sum.splits)
  note r = this
  show "isSet s field \<Longrightarrow> isSet s' field"
    using readEntries_set[OF r] by blast
  show "reader = Unread (WMap ss) \<Longrightarrow> field \<in> fst ` set ss \<Longrightarrow> recognized field
           \<Longrightarrow> isSet s' field"
    using readEntries_set[OF r, of field] i by simp
qed

text \<open>The field is listed in a \<open>$delete\<close> array of the input; it is a key of a \<open>$set\<close> structure.\<close>

definition inDeleteSection :: "(string \<times> wire) list \<Rightarrow> string \<Rightarrow> bool" where
  "inDeleteSection kvs field \<longleftrightarrow>
     (\<exists>(k, v) \<in> set kvs. k = ''$delete'' \<and>
        (case v of WArray ds \<Rightarrow> WString field \<in> set ds | _ \<Rightarrow> False))"

definition inSetSection :: "(string \<times> wire) list \<Rightarrow> string \<Rightarrow> bool" where
  "inSetSection kvs field \<longleftrightarrow>
     (\<exists>(k, v) \<in> set kvs. k = ''$set'' \<and>
        (case v of WMap ss \<Rightarrow> field \<in> fst ` set ss | _ \<Rightarrow> False))"

lemma patch_callback_marks:
  assumes "UnmarshalRestLiPatch_callback e (Unread v) key = Inr (e', reader')"
    and "recognized field"
  shows "(isDeleted (Delete_Fields e) field \<or> inDeleteSection [(key, v)] field
           \<longrightarrow> isDeleted (Delete_Fields e') field) \<and>
         (isSet (Set_Fields e) field \<or> inSetSection [(key, v)] field
           \<longrightarrow> isSet (Set_Fields e') field)"
proof -
  consider (del) "key = ''$delete''" | (set) "key = ''$set''"
    | (other) "key \<noteq> ''$delete''" "key \<noteq> ''$set''"
    by blast
  then show ?thesis
  proof cases
    case del
    with assms(1) obtain d where d: "Delete_UnmarshalRestLi (Delete_Fields e) (Unread v) = Inr (d, reader')"
      "e' = e\<lparr>Delete_Fields := d\<rparr>"
      by (auto simp: UnmarshalRestLiPatch_callback_def split: sum.splits)
    have "isDeleted (Delete_Fields e) field \<Longrightarrow> isDeleted d field"
      by (rule Delete_UnmarshalRestLi_deleted(1)[OF d(1)])
    moreover have "inDeleteSection [(key, v)] field \<Longrightarrow> isDeleted d field"
      using Delete_UnmarshalRestLi_deleted(2)[OF d(1) _ _ assms(2)]
      by (auto simp: inDeleteSection_def split: wire.splits)
    ultimately show ?thesis using d(2) del by (auto simp: inSetSection_def)
  next
    case set
    with assms(1) obtain s where s: "Set_UnmarshalRestLi (Set_Fields e) (Unread v) = Inr (s, reader')"
      "e' = e\<lparr>Set_Fields := s\<rparr>"
      by (auto simp: UnmarshalRestLiPatch_callback_def split: sum.splits)
    have "isSet (Set_Fields e) field \<Longrightarrow> isSet s field"
      by (rule Set_UnmarshalRestLi_set(1)[OF s(1)])
    moreover have "inSetSection [(key, v)] field \<Longrightarrow> isSet s field"
      using Set_UnmarshalRestLi_set(2)[OF s(1) _ _ assms(2)]
      by (auto simp: inSetSection_def split: wire.splits)
    ultimately show ?thesis using s(2) set by (auto simp: inDeleteSection_def)
  next
    case other
    with assms(1) have "e' = e"
      by (simp add: UnmarshalRestLiPatch_callback_def Skip_def)
    with other show ?thesis by (simp add: inDeleteSection_def inSetSection_def)
  qed
qed

lemma inDeleteSection_Cons:
  "inDeleteSection (kv # kvs) field \<longleftrightarrow> inDeleteSection [kv] field \<or> inDeleteSection kvs field"
  by (simp add: inDeleteSection_def)

lemma inSetSection_Cons:
  "inSetSection (kv # kvs) field \<longleftrightarrow> inSetSection [kv] field \<or> inSetSection kvs field"
  by (simp add: inSetSection_def)

lemma readEntries_patch_marks:
  assumes "readEntries UnmarshalRestLiPatch_callback e kvs = Inr e'" and "recognized field"
  shows "(isDeleted (Delete_Fields e) field \<or> inDeleteSection kvs field
            \<longrightarrow> isDeleted (Delete_Fields e') field) \<and>
         (isSet (Set_Fields e) field \<or> inSetSection kvs field
            \<longrightarrow> isSet (Set_Fields e') field)"
  using assms(1)
proof (induction kvs arbitrary: e)
  case Nil
  then show ?case by (simp add: inDeleteSection_def inSetSection_def)
next
  case (Cons kv kvs)
  obtain k v where kv: "kv = (k, v)" by (cases kv)
  from Cons.prems obtain e1 r1 where
    e1: "UnmarshalRestLiPatch_callback e (Unread v) k = Inr (e1, r1)"
    and r: "readEntries UnmarshalRestLiPatch_callback e1 kvs = Inr e'"
    by (auto simp: kv split: sum.splits prod.splits Reader.splits)
  note step = patch_callback_marks[OF e1 assms(2)]
  note ih = Cons.IH[OF r]
  show ?case
    unfolding kv inDeleteSection_Cons[of "(k, v)" kvs] inSetSection_Cons[of "(k, v)" kvs]
    using step ih by blast
qed

text \<open>Entries with a key other than \<open>$delete\<close> and \<open>$set\<close> change nothing.\<close>

lemma patch_callback_other:
  "key \<noteq> ''$delete'' \<Longrightarrow> key \<noteq> ''$set''
     \<Longrightarrow> UnmarshalRestLiPatch_callback e (Unread v) key = Inr (e, Consumed)"
  by (simp add: UnmarshalRestLiPatch_callback_def Skip_def)

lemma readEntries_patch_skip:
  "readEntries UnmarshalRestLiPatch_callback e
      (filter (\<lambda>(k, v). k = ''$delete'' \<or> k = ''$set'') kvs) =
   readEntries UnmarshalRestLiPatch_callback e kvs"
proof (induction kvs arbitrary: e)
  case Nil
  show ?case by simp
next
  case (Cons kv kvs)
  obtain k v where kv: "kv = (k, v)" by (cases kv)
  show ?case
  proof (cases "k = ''$delete'' \<or> k = ''$set''")
    case True
    then show ?thesis by (simp add: kv Cons.IH split: sum.splits prod.splits Reader.splits)
  next
    case False
    then show ?thesis by (simp add: kv Cons.IH patch_callback_other)
  qed
qed

text \<open>The whole of \<open>UnmarshalRestLiPatch\<close> on a keyed structure.\<close>

lemma ReadMap_entries:
  "ReadMap (Unread (WMap kvs)) f a =
     (case readEntries f a kvs of Inl err \<Rightarrow> Inl err | Inr a' \<Rightarrow> Inr (a', Consumed))"
  by (simp add: ReadMap_def)

lemma UnmarshalRestLiPatch_skip:
  "UnmarshalRestLiPatch e
      (Unread (WMap (filter (\<lambda>(k, v). k = ''$delete'' \<or> k = ''$set'') kvs))) =
   UnmarshalRestLiPatch e (Unread (WMap kvs))"
  by (simp add: UnmarshalRestLiPatch_def ReadMap_entries readEntries_patch_skip)

text \<open>The field is in both sections of the patch.\<close>

definition bothSections :: "ExtensionSchemaAnnotation_PartialUpdate \<Rightarrow> string \<Rightarrow> bool" where
  "bothSections p field \<longleftrightarrow> isDeleted (Delete_Fields p) field \<and> isSet (Set_Fields p) field"

lemma conflicts_bothSections:
  "conflicts p = [] \<longleftrightarrow> \<not> (\<exists>field. bothSections p field)"
  by (simp add: conflicts_Nil bothSections_def)

lemma hd_bothSections:
  "conflicts p \<noteq> [] \<Longrightarrow> bothSections p (hd (conflicts p))"
  by (simp add: bothSections_def hd_conflicts)

lemma UnmarshalRestLiPatch_input:
  assumes "recognized field" and "inDeleteSection kvs field" and "inSetSection kvs field"
  shows "isl (UnmarshalRestLiPatch e (Unread (WMap kvs)))"
    and "ReadMap (Unread (WMap kvs)) UnmarshalRestLiPatch_callback e = Inr (e', reader')
           \<Longrightarrow> bothSections e' field"
proof -
  have b: "bothSections e' field"
    if "ReadMap (Unread (WMap kvs)) UnmarshalRestLiPatch_callback e = Inr (e', reader')"
    for e' reader'
  proof -
    from that have "readEntries UnmarshalRestLiPatch_callback e kvs = Inr e'"
      by (simp add: ReadMap_entries split: sum.splits)
    from readEntries_patch_marks[OF this assms(1)] assms(2,3) show ?thesis
      by (simp add: bothSections_def)
  qed
  then show "ReadMap (Unread (WMap kvs)) UnmarshalRestLiPatch_callback e = Inr (e', reader')
           \<Longrightarrow> bothSections e' field" .
  show "isl (UnmarshalRestLiPatch e (Unread (WMap kvs)))"
  proof (cases "ReadMap (Unread (WMap kvs)) UnmarshalRestLiPatch_callback e")
    case (Inl err)
    then show ?thesis by (simp add: UnmarshalRestLiPatch_def)
  next
    case (Inr p)
    obtain e1 r1 where p: "p = (e1, r1)" by (cases p)
    from b[of e1 r1] Inr p have "conflicts e1 \<noteq> []"
      using conflicts_bothSections[of e1] by blast
    from UnmarshalRestLiPatch_checked(1)[OF _ this, of "Unread (WMap kvs)" e r1] Inr p
    show ?thesis by simp
  qed
qed

section \<open>Properties of Register\<close>

lemma Register_known:
  assumes "map_of (types reg) (GetIdentifier t) = Some ct"
  shows "Register reg t packageRoot = (reg, Some (AlreadyRegistered (GetIdentifier t) (PackageRoot ct)))"
  using assms by (simp add: Register_def)

lemma Register_fresh:
  assumes "map_of (types reg) (GetIdentifier t) = None"
  shows "snd (Register reg t packageRoot) = None"
    and "map_of (types (fst (Register reg t packageRoot))) =
           (map_of (types reg))(GetIdentifier t \<mapsto>
              \<lparr>Type = t, PackageRoot = packageRoot, IsCyclic = False,
               TypeNameOverride = [], IsCustomTyperef = False\<rparr>)"
  using assms by (simp_all add: Register_def Let_def update_conv' split: option.splits)

lemma Register_then_registered:
  "GetIdentifier t \<in> fst ` set (types (fst (Register reg t packageRoot)))"
proof (cases "map_of (types reg) (GetIdentifier t)")
  case None
  then show ?thesis using Register_fresh(2)[OF None, of packageRoot]
    by (simp add: registered_iff)
next
  case (Some ct)
  then show ?thesis using Register_known[OF Some, of packageRoot]
    by (simp add: registered_iff)
qed

lemma Register_twice:
  assumes "GetIdentifier t1 = GetIdentifier t2"
  shows "\<exists>r. snd (Register (fst (Register reg t1 r1)) t2 r2) = Some (AlreadyRegistered (GetIdentifier t2) r)"
proof -
  have "GetIdentifier t2 \<in> fst ` set (types (fst (Register reg t1 r1)))"
    using Register_then_registered[of t1 reg r1] assms by simp
  then obtain ct where "map_of (types (fst (Register reg t1 r1))) (GetIdentifier t2) = Some ct"
    by (auto simp: registered_iff)
  then show ?thesis using Register_known by fastforce
qed

text \<open>
  C6. Whatever the registry, registering a type whose Identifier is already a key returns the
  already-registered error (naming the identifier and the package root of the first
  registration); registering a type whose Identifier is not a key returns no error and stores
  the type under its Identifier with its package root and with \<open>IsCyclic = False\<close>; and of two
  registrations of the same Identifier the second one fails, whichever of the two comes first.
\<close>

theorem Register_duplicate_guard:
  "(GetIdentifier t \<in> fst ` set (types reg) \<longrightarrow>
      (\<exists>ct. map_of (types reg) (GetIdentifier t) = Some ct \<and>
         snd (Register reg t packageRoot) =
           Some (AlreadyRegistered (GetIdentifier t) (PackageRoot ct))))
   \<and> (GetIdentifier u \<notin> fst ` set (types reg) \<longrightarrow>
        snd (Register reg u packageRoot) = None \<and>
        get (fst (Register reg u packageRoot)) (GetIdentifier u) =
          Inr \<lparr>Type = u, PackageRoot = packageRoot, IsCyclic = False,
               TypeNameOverride = [], IsCustomTyperef = False\<rparr>)
   \<and> (GetIdentifier t1 = GetIdentifier t2 \<longrightarrow>
        (\<exists>r. snd (Register (fst (Register reg t1 r1)) t2 r2) =
               Some (AlreadyRegistered (GetIdentifier t2) r)) \<and>
        (\<exists>r. snd (Register (fst (Register reg t2 r2)) t1 r1) =
               Some (AlreadyRegistered (GetIdentifier t1) r)))"
proof (intro conjI impI)
  assume "GetIdentifier t \<in> fst ` set (types reg)"
  then obtain ct where ct: "map_of (types reg) (GetIdentifier t) = Some ct"
    by (auto simp: registered_iff)
  then show "\<exists>ct. map_of (types reg) (GetIdentifier t) = Some ct \<and>
         snd (Register reg t packageRoot) =
           Some (AlreadyRegistered (GetIdentifier t) (PackageRoot ct))"
    using Register_known[OF ct, of packageRoot] by simp
next
  assume "GetIdentifier u \<notin> fst ` set (types reg)"
  then have none: "map_of (types reg) (GetIdentifier u) = None"
    using registered_iff[of "GetIdentifier u" reg] by (cases "map_of (types reg) (GetIdentifier u)") auto
  show "snd (Register reg u packageRoot) = None" using Register_fresh(1)[OF none] .
  show "get (fst (Register reg u packageRoot)) (GetIdentifier u) =
          Inr \<lparr>Type = u, PackageRoot = packageRoot, IsCyclic = False,
               TypeNameOverride = [], IsCustomTyperef = False\<rparr>"
    using Register_fresh(2)[OF none, of packageRoot] by (simp add: get_def)
next
  assume eq: "GetIdentifier t1 = GetIdentifier t2"
  show "\<exists>r. snd (Register (fst (Register reg t1 r1)) t2 r2) =
               Some (AlreadyRegistered (GetIdentifier t2) r)"
    using Register_twice[OF eq] .
  show "\<exists>r. snd (Register (fst (Register reg t2 r2)) t1 r1) =
               Some (AlreadyRegistered (GetIdentifier t1) r)"
    using Register_twice[OF eq[symmetric]] .
qed

theorem Register_duplicate_guard_witness:
  "GetIdentifier tyA \<in> fst ` set (types regA)
   \<and> (\<exists>ct. map_of (types regA) (GetIdentifier tyA) = Some ct \<and>
         snd (Register regA tyA ''other'') =
           Some (AlreadyRegistered (GetIdentifier tyA) (PackageRoot ct)))
   \<and> GetIdentifier tyB \<notin> fst ` set (types regA)
   \<and> snd (Register regA tyB ''other'') = None
   \<and> get (fst (Register regA tyB ''other'')) (GetIdentifier tyB) =
        Inr \<lparr>Type = tyB, PackageRoot = ''other'', IsCyclic = False,
             TypeNameOverride = [], IsCustomTyperef = False\<rparr>
   \<and> GetIdentifier tyA = GetIdentifier (tyA\<lparr>InnerTypes := []\<rparr>)
   \<and> (\<exists>r. snd (Register (fst (Register regA tyA ''pkg1'')) (tyA\<lparr>InnerTypes := []\<rparr>) ''pkg2'') =
          Some (AlreadyRegistered (GetIdentifier (tyA\<lparr>InnerTypes := []\<rparr>)) r))"
proof -
  have a1: "GetIdentifier tyA \<in> fst ` set (types regA)" by code_simp
  have a2: "GetIdentifier tyB \<notin> fst ` set (types regA)" by code_simp
  have a3: "GetIdentifier tyA = GetIdentifier (tyA\<lparr>InnerTypes := []\<rparr>)" by simp
  show ?thesis
    using a1 a2 a3
      Register_duplicate_guard[of tyA regA "''other''" tyB tyA "tyA\<lparr>InnerTypes := []\<rparr>"
        "''pkg1''" "''pkg2''"]
    by blast
qed

text \<open>
  C10. A call of \<open>Register\<close> for a type whose Identifier is already a key leaves the registry as
  it was: the registered types with all their fields and the sets of the package roots.
\<close>

theorem Register_failure_atomic:
  "GetIdentifier t \<in> fst ` set (types reg) \<Longrightarrow>
     fst (Register reg t packageRoot) = reg \<and> snd (Register reg t packageRoot) \<noteq> None"
proof -
  assume "GetIdentifier t \<in> fst ` set (types reg)"
  then obtain ct where ct: "map_of (types reg) (GetIdentifier t) = Some ct"
    by (auto simp: registered_iff)
  show ?thesis using Register_known[OF ct, of packageRoot] by simp
qed

theorem Register_failure_atomic_witness:
  "GetIdentifier (tyA\<lparr>InnerTypes := []\<rparr>) \<in> fst ` set (types regAB)
   \<and> fst (Register regAB (tyA\<lparr>InnerTypes := []\<rparr>) ''pkg2'') = regAB
   \<and> snd (Register regAB (tyA\<lparr>InnerTypes := []\<rparr>) ''pkg2'') \<noteq> None"
proof -
  have a1: "GetIdentifier (tyA\<lparr>InnerTypes := []\<rparr>) \<in> fst ` set (types regAB)" by code_simp
  show ?thesis
    using a1 Register_failure_atomic[of "tyA\<lparr>InnerTypes := []\<rparr>" regAB "''pkg2''"] by blast
qed

text \<open>
  C5. \<open>Finalize\<close> runs validation, the cycle phase and name remediation in that order: a failed
  validation is the result and nothing else runs; the cycle phase runs on a validated registry
  and its failure is the result; remediation runs on the registry the cycle phase returns.
  Validation fails exactly when some registered type has an inner type that is not a key, and
  its error names the full names of such a type and such a dependency. When \<open>Finalize\<close> succeeds,
  every identifier that can be reached from a key along inner types is a key of the final
  registry.
\<close>

theorem Finalize_stages:
  "(validateAllTypesSatisfied rv = Some e \<longrightarrow>
      Finalize rv = Some (Inl e) \<and>
      (\<exists>ident rt dep. (ident, rt) \<in> set (types rv) \<and> dep \<in> set (InnerTypes (Type rt)) \<and>
          dep \<notin> fst ` set (types rv) \<and> e = UnknownDependency (FullName ident) (FullName dep)))
   \<and> ((\<exists>e. validateAllTypesSatisfied reg = Some e) \<longleftrightarrow>
        (\<exists>ident rt dep. (ident, rt) \<in> set (types reg) \<and> dep \<in> set (InnerTypes (Type rt)) \<and>
          dep \<notin> fst ` set (types reg)))
   \<and> (validateAllTypesSatisfied rc = None \<and> flagCyclicDependencies rc = Some (Inl e') \<longrightarrow>
        Finalize rc = Some (Inl e'))
   \<and> (validateAllTypesSatisfied rs = None \<and> flagCyclicDependencies rs = Some (Inr reg1) \<longrightarrow>
        Finalize rs = Some (remediateConflictingNames reg1))
   \<and> (Finalize rs = Some (Inr reg') \<longrightarrow>
        validateAllTypesSatisfied rs = None \<and>
        (\<exists>reg1. flagCyclicDependencies rs = Some (Inr reg1) \<and>
                remediateConflictingNames reg1 = Inr reg') \<and>
        (\<forall>a b. a \<in> fst ` set (types reg') \<and> (a, b) \<in> (innerEdges reg')\<^sup>* \<longrightarrow>
                b \<in> fst ` set (types reg')))"
proof (intro conjI impI)
  assume v: "validateAllTypesSatisfied rv = Some e"
  show "Finalize rv = Some (Inl e)" using v by (simp add: Finalize_def)
  show "\<exists>ident rt dep. (ident, rt) \<in> set (types rv) \<and> dep \<in> set (InnerTypes (Type rt)) \<and>
          dep \<notin> fst ` set (types rv) \<and> e = UnknownDependency (FullName ident) (FullName dep)"
    using v validateTypes_Some[of rv "types rv" e] by (simp add: validateAllTypesSatisfied_def)
next
  have "(\<exists>e. validateAllTypesSatisfied reg = Some e) \<longleftrightarrow> \<not> complete reg"
    using validate_complete[of reg] by auto
  then show "(\<exists>e. validateAllTypesSatisfied reg = Some e) \<longleftrightarrow>
        (\<exists>ident rt dep. (ident, rt) \<in> set (types reg) \<and> dep \<in> set (InnerTypes (Type rt)) \<and>
          dep \<notin> fst ` set (types reg))"
    by (auto simp: complete_def innerEdges_def)
next
  assume "validateAllTypesSatisfied rc = None \<and> flagCyclicDependencies rc = Some (Inl e')"
  then show "Finalize rc = Some (Inl e')" by (simp add: Finalize_def)
next
  assume "validateAllTypesSatisfied rs = None \<and> flagCyclicDependencies rs = Some (Inr reg1)"
  then show "Finalize rs = Some (remediateConflictingNames reg1)"
    by (simp add: Finalize_def split: sum.splits)
next
  assume f: "Finalize rs = Some (Inr reg')"
  show "validateAllTypesSatisfied rs = None" using Finalize_success(1)[OF f] .
  show "\<exists>reg1. flagCyclicDependencies rs = Some (Inr reg1) \<and>
                remediateConflictingNames reg1 = Inr reg'"
    using Finalize_success(2)[OF f] .
  have "complete rs" using Finalize_success(1)[OF f] by (simp add: validate_complete)
  then have "complete reg'" using complete_skeleton[OF Finalize_skeleton[OF f]] by simp
  then show "\<forall>a b. a \<in> fst ` set (types reg') \<and> (a, b) \<in> (innerEdges reg')\<^sup>* \<longrightarrow>
                b \<in> fst ` set (types reg')"
    using complete_reachable by blast
qed

theorem Finalize_stages_witness:
  "validateAllTypesSatisfied regA = Some (UnknownDependency ''pkg1.A'' ''pkg1.B'')
   \<and> Finalize regA = Some (Inl (UnknownDependency ''pkg1.A'' ''pkg1.B''))
   \<and> validateAllTypesSatisfied regCross = None
   \<and> flagCyclicDependencies regCross = Some (Inl (CrossPackageCycle ''pkg1.A -> pkg2.B -> pkg1.A''))
   \<and> Finalize regCross = Some (Inl (CrossPackageCycle ''pkg1.A -> pkg2.B -> pkg1.A''))
   \<and> validateAllTypesSatisfied regAB = None
   \<and> flagCyclicDependencies regAB = Some (Inr regAB)
   \<and> Finalize regAB = Some (Inr regAB)
   \<and> idA \<in> fst ` set (types regAB) \<and> (idA, idB) \<in> (innerEdges regAB)\<^sup>*
   \<and> idB \<in> fst ` set (types regAB)"
proof -
  have v1: "validateAllTypesSatisfied regA = Some (UnknownDependency ''pkg1.A'' ''pkg1.B'')"
    by code_simp
  have v2: "validateAllTypesSatisfied regCross = None" by code_simp
  have c2: "flagCyclicDependencies regCross =
      Some (Inl (CrossPackageCycle ''pkg1.A -> pkg2.B -> pkg1.A''))" by code_simp
  have v3: "validateAllTypesSatisfied regAB = None" by code_simp
  have c3: "flagCyclicDependencies regAB = Some (Inr regAB)" by code_simp
  have r3: "remediateConflictingNames regAB = Inr regAB" by code_simp
  have k: "idA \<in> fst ` set (types regAB)" by code_simp
  have "(idA, tyA) \<in> (\<lambda>p. (fst p, Type (snd p))) ` set (types regAB)" by code_simp
  then obtain rt where "(idA, rt) \<in> set (types regAB)" and "Type rt = tyA" by auto
  then have "(idA, idB) \<in> innerEdges regAB"
    unfolding innerEdges_def by (auto simp: tyA_def)
  then have e: "(idA, idB) \<in> (innerEdges regAB)\<^sup>*" by blast
  note th = Finalize_stages[of regA "UnknownDependency ''pkg1.A'' ''pkg1.B''" regA regCross
      "CrossPackageCycle ''pkg1.A -> pkg2.B -> pkg1.A''" regAB regAB regAB]
  have f3: "Finalize regAB = Some (Inr regAB)" using th v3 c3 r3 by simp
  show ?thesis using th v1 v2 c2 v3 c3 f3 k e by blast
qed

text \<open>
  C9. The cycle phase terminates on every registry (a registry is finite): the loop for one
  start node returns a result, and so do the loop over all start nodes and \<open>Finalize\<close>. On a
  registry that passed validation the result is the flagged registry or the cross-package error,
  never a panic. The reason is the one the claim gives: a chain that \<open>findCycle\<close> returns
  consists, apart from the start node, of nodes whose flag is not set, and ends in such a node;
  flagging the chain sets the flags of all its nodes and clears none, so each round of the loop
  leaves fewer nodes without a flag.
\<close>

theorem cycle_phase_terminates:
  "(\<exists>r. flagCyclicDependencies_loop reg ident = Some r)
   \<and> (\<exists>r. flagCyclicDependencies reg = Some r)
   \<and> (\<exists>r. Finalize reg = Some r)
   \<and> (validateAllTypesSatisfied reg = None \<longrightarrow>
        (\<exists>reg'. flagCyclicDependencies reg = Some (Inr reg')) \<or>
        (\<exists>p. flagCyclicDependencies reg = Some (Inl (CrossPackageCycle p))))
   \<and> (findCycle reg ident [] = Inr cyc \<and> cyc \<noteq> [] \<longrightarrow>
        set cyc \<subseteq> {ident} \<union> nonCyclic reg \<and> last cyc \<in> nonCyclic reg)
   \<and> (findCycle reg ident [] = Inr cyc \<and> cyc \<noteq> [] \<and> flagCycle reg cyc = Inr regm \<longrightarrow>
        nonCyclic regm \<subseteq> nonCyclic reg - set cyc \<and>
        card (nonCyclic regm) < card (nonCyclic reg))"
proof (intro conjI impI)
  show "\<exists>r. flagCyclicDependencies_loop reg ident = Some r" by (rule loop_terminates)
  show t: "\<exists>r. flagCyclicDependencies reg = Some r"
    unfolding flagCyclicDependencies_def by (rule from_terminates)
  then obtain r where r: "flagCyclicDependencies reg = Some r" by blast
  show "\<exists>r. Finalize reg = Some r"
    using r by (cases r) (auto simp: Finalize_def split: option.splits sum.splits)
next
  assume "validateAllTypesSatisfied reg = None"
  then have c: "complete reg" by (simp add: validate_complete)
  obtain r where r: "flagCyclicDependencies_from reg (map fst (types reg)) = Some r"
    using from_terminates by blast
  have "(\<exists>reg'. r = Inr reg') \<or> (\<exists>p. r = Inl (CrossPackageCycle p))"
    using from_no_panic[OF r c] by simp
  then show "(\<exists>reg'. flagCyclicDependencies reg = Some (Inr reg')) \<or>
        (\<exists>p. flagCyclicDependencies reg = Some (Inl (CrossPackageCycle p)))"
    using r by (auto simp: flagCyclicDependencies_def)
next
  assume a: "findCycle reg ident [] = Inr cyc \<and> cyc \<noteq> []"
  then show "set cyc \<subseteq> {ident} \<union> nonCyclic reg" using findCycle_chain(1)[of reg ident "[]" cyc] by auto
  show "last cyc \<in> nonCyclic reg"
    using a findCycle_chain(1)[of reg ident "[]" cyc] by (auto simp: IntroducesCycle_Nil)
next
  assume a: "findCycle reg ident [] = Inr cyc \<and> cyc \<noteq> [] \<and> flagCycle reg cyc = Inr regm"
  show "nonCyclic regm \<subseteq> nonCyclic reg - set cyc" using a findCycle_progress(2) by blast
  show "card (nonCyclic regm) < card (nonCyclic reg)" using a findCycle_progress(3) by blast
qed

theorem cycle_phase_terminates_witness:
  "validateAllTypesSatisfied regOneRoot = None
   \<and> findCycle regOneRoot idA [] = Inr [idA, idB2, idA]
   \<and> flagCycle regOneRoot [idA, idB2, idA] = Inr regOneRootFlagged
   \<and> last [idA, idB2, idA] \<in> nonCyclic regOneRoot
   \<and> card (nonCyclic regOneRootFlagged) < card (nonCyclic regOneRoot)
   \<and> flagCyclicDependencies regOneRoot = Some (Inr regOneRootFlagged)"
proof -
  have v: "validateAllTypesSatisfied regOneRoot = None" by code_simp
  have f: "findCycle regOneRoot idA [] = Inr [idA, idB2, idA]" by code_simp
  have g: "flagCycle regOneRoot [idA, idB2, idA] = Inr regOneRootFlagged" by code_simp
  have r: "flagCyclicDependencies regOneRoot = Some (Inr regOneRootFlagged)" by code_simp
  have n: "[idA, idB2, idA] \<noteq> []" by simp
  show ?thesis
    using v f g r n cycle_phase_terminates[of regOneRoot idA "[idA, idB2, idA]" regOneRootFlagged]
    by blast
qed




text \<open>
  C2, as the spec states it, fails on the code. In the scenario of the spec the traversal from
  \<open>A\<close> goes to \<open>B\<close> and comes back to \<open>A\<close>, which is on the path of ancestors \<open>[A, B]\<close>, and the
  search reports nothing: \<open>IntroducesCycle\<close> compares package paths, and all three have the
  package path of namespace \<open>pkg1\<close>.
\<close>

theorem findCycle_reentry_counterexample:
  "visits regAB idA [] idA [idA, idB] \<and> SeenNode [idA, idB] idA \<and> findCycle regAB idA [] = Inr []"
proof -
  have a: "get regAB idA = Inr \<lparr>Type = tyA, PackageRoot = ''pkg1'', IsCyclic = False,
             TypeNameOverride = [], IsCustomTyperef = False\<rparr>" by code_simp
  have b: "get regAB idB = Inr \<lparr>Type = tyB, PackageRoot = ''pkg1'', IsCyclic = False,
             TypeNameOverride = [], IsCustomTyperef = False\<rparr>" by code_simp
  have ca: "IsCyclic_reg regAB idA = Inr False" and cb: "IsCyclic_reg regAB idB = Inr False"
    by code_simp+
  have i1: "IntroducesCycle [] idA = []" and i2: "IntroducesCycle (Add [] idA) idB = []"
    by code_simp+
  have s1: "\<not> SeenNode [] idA" and s2: "\<not> SeenNode (Add [] idA) idB" by code_simp+
  have p: "Add (Add [] idA) idB = [idA, idB]" by (simp add: Add_def)
  have v0: "visits regAB idA (Add (Add [] idA) idB) idA [idA, idB]"
    unfolding p by (rule visits.here)
  have v1: "visits regAB idB (Add [] idA) idA [idA, idB]"
    using visits.below[OF i2 s2 b _ ca v0] by (simp add: tyB_def)
  have "visits regAB idA [] idA [idA, idB]"
    using visits.below[OF i1 s1 a _ cb v1] by (simp add: tyA_def)
  moreover have "SeenNode [idA, idB] idA" by simp
  moreover have "findCycle regAB idA [] = Inr []" by code_simp
  ultimately show ?thesis by simp
qed

text \<open>
  C2, amended. When \<open>findCycle\<close> returns (it does not panic), the chain is not empty exactly when
  the traversal comes to a node \<open>m\<close> with a path of ancestors \<open>p\<close> on which some ancestor has
  the package path of \<open>m\<close> and a later ancestor has a different package path; the chain is then
  the path from the last such ancestor on, followed by \<open>m\<close>.
\<close>

theorem findCycle_reports:
  assumes "findCycle reg n path = Inr cyc"
  shows "(cyc \<noteq> [] \<longleftrightarrow> (\<exists>m p i. visits reg n path m p \<and> reenters p m i)) \<and>
         (cyc \<noteq> [] \<longrightarrow>
            (\<exists>m p i. visits reg n path m p \<and> reenters p m i \<and>
                (\<forall>k. i < k \<longrightarrow> \<not> reenters p m k) \<and> cyc = drop i p @ [m]))"
proof -
  have found: "\<exists>m p i. visits reg n path m p \<and> reenters p m i \<and>
                (\<forall>k. i < k \<longrightarrow> \<not> reenters p m k) \<and> cyc = drop i p @ [m]" if ne: "cyc \<noteq> []"
  proof -
    obtain m p where v: "visits reg n path m p" and c: "cyc = IntroducesCycle p m"
      using findCycle_sound(1)[OF assms ne] by blast
    then have "IntroducesCycle p m \<noteq> []" using ne by simp
    then obtain i where "reenters p m i" "\<forall>k. i < k \<longrightarrow> \<not> reenters p m k"
      "IntroducesCycle p m = drop i p @ [m]"
      using IntroducesCycle_spec[of p m] by auto
    then show ?thesis using v c by auto
  qed
  have none: "cyc \<noteq> []" if ex: "\<exists>m p i. visits reg n path m p \<and> reenters p m i"
  proof
    assume "cyc = []"
    then have "findCycle reg n path = Inr []" using assms by simp
    then show False using findCycle_complete(1) ex IntroducesCycle_empty_iff by blast
  qed
  show ?thesis using found none by blast
qed

theorem findCycle_reports_witness:
  "findCycle regOneRoot idA [] = Inr [idA, idB2, idA]
   \<and> (\<exists>m p i. visits regOneRoot idA [] m p \<and> reenters p m i \<and>
          (\<forall>k. i < k \<longrightarrow> \<not> reenters p m k) \<and> [idA, idB2, idA] = drop i p @ [m])"
proof -
  have f: "findCycle regOneRoot idA [] = Inr [idA, idB2, idA]" by code_simp
  show ?thesis using f findCycle_reports[OF f] by blast
qed




text \<open>
  C3, as the spec states it, fails on the code in its second half. \<open>a.x.Foo\<close> and \<open>c.xF.oo\<close> are
  different identifiers of the package root \<open>r\<close>, both flagged, and both compute the override
  \<open>XFoo\<close>; they are in different groups (\<open>foo\<close> and \<open>oo\<close>), and the map \<open>overrides\<close> starts
  empty for each group. \<open>Finalize\<close> succeeds and both types carry the override \<open>XFoo\<close>.
\<close>

theorem override_collision_counterexample:
  "PackageRoot_reg regGroups idFoo1 = Inr ''r'' \<and> PackageRoot_reg regGroups idOo1 = Inr ''r''
   \<and> idFoo1 \<noteq> idOo1
   \<and> overrideName idFoo1 = Inr ''XFoo'' \<and> overrideName idOo1 = Inr ''XFoo''
   \<and> flagCyclicDependencies regGroups = Some (Inr regGroupsFlagged)
   \<and> IsCyclic_reg regGroupsFlagged idFoo1 = Inr True \<and> IsCyclic_reg regGroupsFlagged idOo1 = Inr True
   \<and> remediateConflictingNames regGroupsFlagged = Inr regGroupsRenamed
   \<and> Finalize regGroups = Some (Inr regGroupsRenamed)
   \<and> TypeNameOverride_reg regGroupsRenamed idFoo1 = ''XFoo''
   \<and> TypeNameOverride_reg regGroupsRenamed idOo1 = ''XFoo''"
proof -
  have "PackageRoot_reg regGroups idFoo1 = Inr ''r''" by code_simp
  moreover have "PackageRoot_reg regGroups idOo1 = Inr ''r''" by code_simp
  moreover have "idFoo1 \<noteq> idOo1" by code_simp
  moreover have "overrideName idFoo1 = Inr ''XFoo''" by code_simp
  moreover have "overrideName idOo1 = Inr ''XFoo''" by code_simp
  moreover have "flagCyclicDependencies regGroups = Some (Inr regGroupsFlagged)" by code_simp
  moreover have "IsCyclic_reg regGroupsFlagged idFoo1 = Inr True" by code_simp
  moreover have "IsCyclic_reg regGroupsFlagged idOo1 = Inr True" by code_simp
  moreover have "remediateConflictingNames regGroupsFlagged = Inr regGroupsRenamed" by code_simp
  moreover have "Finalize regGroups = Some (Inr regGroupsRenamed)" by code_simp
  moreover have "TypeNameOverride_reg regGroupsRenamed idFoo1 = ''XFoo''" by code_simp
  moreover have "TypeNameOverride_reg regGroupsRenamed idOo1 = ''XFoo''" by code_simp
  ultimately show ?thesis by simp
qed

text \<open>The names and the namespaces of the members of the package roots are ASCII.\<close>

definition asciiNames :: "typeRegistry \<Rightarrow> bool" where
  "asciiNames reg \<longleftrightarrow>
     (\<forall>(root, members) \<in> set (packageRoots reg). \<forall>i \<in> set members.
        isASCII (Name i) \<and> isASCII (Namespace i))"

text \<open>
  C3, amended. The names and the namespaces of the members of the package roots are ASCII
  (\<open>asciiNames\<close>). The groups are those of one package root: its flagged members with the same
  lower-cased name. When remediation succeeds, every member of a group of two or more has as
  \<open>TypeNameOverride\<close> the last dot-separated segment of its namespace followed by its short name,
  with the first byte upper-cased, and two members of one group have different overrides. When
  two different members of one group compute the same override, remediation fails; it fails
  with the rename-conflict error when, in addition, every member of every package root is
  registered and has a non-empty override name. A rename-conflict error names the full name and
  the namespace of one member of a group, the override, and the full name of another member of
  the same group that computes the same override. Nothing is said of two identifiers of
  different groups.
\<close>

theorem remediation_overrides:
  "(remediateConflictingNames reg = Inr reg' \<and> asciiNames reg \<and>
      (root, members) \<in> set (packageRoots reg) \<and>
      sameGroup reg members a b \<longrightarrow>
        TypeNameOverride_reg reg' a = capitalized (lastSegment (Namespace a) @ Name a) \<and>
        TypeNameOverride_reg reg' a \<noteq> TypeNameOverride_reg reg' b)
   \<and> (asciiNames rf \<and> (root', members') \<in> set (packageRoots rf) \<and>
        sameGroup rf members' c d \<and> overrideName c = overrideName d \<longrightarrow>
          (\<exists>e. remediateConflictingNames rf = Inl e) \<and>
          ((\<forall>(r, ms) \<in> set (packageRoots rf). \<forall>i \<in> set ms.
               i \<in> fst ` set (types rf) \<and> lastSegment (Namespace i) @ Name i \<noteq> []) \<longrightarrow>
             (\<exists>fn ns ov fc. remediateConflictingNames rf = Inl (RenameConflict fn ns ov fc))))
   \<and> (remediateConflictingNames rg = Inl (RenameConflict fn ns ov fc) \<and> asciiNames rg \<longrightarrow>
        (\<exists>root members x y. (root, members) \<in> set (packageRoots rg) \<and> sameGroup rg members x y \<and>
            overrideName x = Inr ov \<and> overrideName y = Inr ov \<and>
            fn = FullName x \<and> ns = Namespace x \<and> fc = FullName y))"
proof -
  have part1: "TypeNameOverride_reg reg' a = capitalized (lastSegment (Namespace a) @ Name a) \<and>
        TypeNameOverride_reg reg' a \<noteq> TypeNameOverride_reg reg' b"
    if h: "remediateConflictingNames reg = Inr reg' \<and> asciiNames reg \<and>
      (root, members) \<in> set (packageRoots reg) \<and> sameGroup reg members a b"
  proof -
    have run: "remediateRoots reg (packageRoots reg) = Inr reg'"
      using h by (simp add: remediateConflictingNames_def)
    have m: "(root, members) \<in> set (packageRoots reg)" using h by simp
    have ab: "sameGroup reg members a b" using h by simp
    then have ba: "sameGroup reg members b a" by (auto simp: sameGroup_def)
    have all: "\<forall>(root, members) \<in> set (packageRoots reg). \<forall>a b. sameGroup reg members a b \<longrightarrow>
         overridden reg' a \<and> overrideName a \<noteq> overrideName b"
      using remediateRoots_success[OF run] by (rule conjunct2)
    have oa: "overridden reg' a" and ne: "overrideName a \<noteq> overrideName b"
      using all m ab by auto
    have ob: "overridden reg' b" using all m ba by auto
    have "TypeNameOverride_reg reg' a = capitalized (lastSegment (Namespace a) @ Name a)"
      using oa by (auto simp: overridden_def overrideName_spec split: if_splits)
    moreover have "TypeNameOverride_reg reg' a \<noteq> TypeNameOverride_reg reg' b"
      using oa ob ne by (auto simp: overridden_def)
    ultimately show ?thesis by simp
  qed
  have part2: "(\<exists>e. remediateConflictingNames rf = Inl e) \<and>
          ((\<forall>(r, ms) \<in> set (packageRoots rf). \<forall>i \<in> set ms.
               i \<in> fst ` set (types rf) \<and> lastSegment (Namespace i) @ Name i \<noteq> []) \<longrightarrow>
             (\<exists>fn ns ov fc. remediateConflictingNames rf = Inl (RenameConflict fn ns ov fc)))"
    if h: "asciiNames rf \<and> (root', members') \<in> set (packageRoots rf) \<and>
        sameGroup rf members' c d \<and> overrideName c = overrideName d"
  proof -
    have m: "(root', members') \<in> set (packageRoots rf)" using h by simp
    have cd: "sameGroup rf members' c d" and eq: "overrideName c = overrideName d"
      using h by simp_all
    have fails: "\<exists>e. remediateConflictingNames rf = Inl e"
    proof (cases "remediateConflictingNames rf")
      case (Inl e)
      then show ?thesis by simp
    next
      case (Inr rf')
      then have run: "remediateRoots rf (packageRoots rf) = Inr rf'"
        by (simp add: remediateConflictingNames_def)
      have "\<forall>(root, members) \<in> set (packageRoots rf). \<forall>a b. sameGroup rf members a b \<longrightarrow>
           overridden rf' a \<and> overrideName a \<noteq> overrideName b"
        using remediateRoots_success[OF run] by (rule conjunct2)
      then have "overrideName c \<noteq> overrideName d" using m cd by auto
      then show ?thesis using eq by simp
    qed
    have "\<exists>fn ns ov fc. remediateConflictingNames rf = Inl (RenameConflict fn ns ov fc)"
      if wf: "\<forall>(r, ms) \<in> set (packageRoots rf). \<forall>i \<in> set ms.
               i \<in> fst ` set (types rf) \<and> lastSegment (Namespace i) @ Name i \<noteq> []"
    proof -
      have wf': "\<forall>(root, members) \<in> set (packageRoots rf). \<forall>i \<in> set members.
          i \<in> fst ` set (types rf) \<and> (\<exists>ov. overrideName i = Inr ov)"
        using wf by (auto simp: overrideName_spec)
      obtain e where e: "remediateRoots rf (packageRoots rf) = Inl e"
        using fails by (auto simp: remediateConflictingNames_def)
      show ?thesis
        using remediateRoots_no_panic[OF e wf'] e by (auto simp: remediateConflictingNames_def)
    qed
    then show ?thesis using fails by blast
  qed
  have part3: "\<exists>root members x y. (root, members) \<in> set (packageRoots rg) \<and> sameGroup rg members x y \<and>
            overrideName x = Inr ov \<and> overrideName y = Inr ov \<and>
            fn = FullName x \<and> ns = Namespace x \<and> fc = FullName y"
    if h: "remediateConflictingNames rg = Inl (RenameConflict fn ns ov fc) \<and> asciiNames rg"
  proof -
    have "remediateRoots rg (packageRoots rg) = Inl (RenameConflict fn ns ov fc)"
      using h by (simp add: remediateConflictingNames_def)
    from remediateRoots_conflict[OF this] show ?thesis by blast
  qed
  show ?thesis using part1 part2 part3 by blast
qed

theorem remediation_overrides_witness:
  "remediateConflictingNames regGroupsFlagged = Inr regGroupsRenamed
   \<and> asciiNames regGroupsFlagged \<and> asciiNames regCollideFlagged
   \<and> (''r'', [idFoo1, idFoo2, idOo1, idOo2]) \<in> set (packageRoots regGroupsFlagged)
   \<and> sameGroup regGroupsFlagged [idFoo1, idFoo2, idOo1, idOo2] idFoo1 idFoo2
   \<and> TypeNameOverride_reg regGroupsRenamed idFoo1 = ''XFoo''
   \<and> TypeNameOverride_reg regGroupsRenamed idFoo1 \<noteq> TypeNameOverride_reg regGroupsRenamed idFoo2
   \<and> (''r'', [idClash1, idClash2]) \<in> set (packageRoots regCollideFlagged)
   \<and> sameGroup regCollideFlagged [idClash1, idClash2] idClash1 idClash2
   \<and> overrideName idClash1 = overrideName idClash2
   \<and> remediateConflictingNames regCollideFlagged =
        Inl (RenameConflict ''b.x.foo'' ''b.x'' ''Xfoo'' ''a.x.foo'')
   \<and> Finalize regCollide = Some (Inl (RenameConflict ''b.x.foo'' ''b.x'' ''Xfoo'' ''a.x.foo''))"
proof -
  have r1: "remediateConflictingNames regGroupsFlagged = Inr regGroupsRenamed" by code_simp
  have a1: "asciiNames regGroupsFlagged" by code_simp
  have a2: "asciiNames regCollideFlagged" by code_simp
  have m1: "(''r'', [idFoo1, idFoo2, idOo1, idOo2]) \<in> set (packageRoots regGroupsFlagged)"
    by code_simp
  have g1: "sameGroup regGroupsFlagged [idFoo1, idFoo2, idOo1, idOo2] idFoo1 idFoo2" by code_simp
  have c1: "capitalized (lastSegment (Namespace idFoo1) @ Name idFoo1) = ''XFoo''" by code_simp
  have m2: "(''r'', [idClash1, idClash2]) \<in> set (packageRoots regCollideFlagged)" by code_simp
  have g2: "sameGroup regCollideFlagged [idClash1, idClash2] idClash1 idClash2" by code_simp
  have o2: "overrideName idClash1 = overrideName idClash2" by code_simp
  have r2: "remediateConflictingNames regCollideFlagged =
        Inl (RenameConflict ''b.x.foo'' ''b.x'' ''Xfoo'' ''a.x.foo'')" by code_simp
  have f2: "Finalize regCollide = Some (Inl (RenameConflict ''b.x.foo'' ''b.x'' ''Xfoo'' ''a.x.foo''))"
    by code_simp
  note th = remediation_overrides[of regGroupsFlagged regGroupsRenamed "''r''"
      "[idFoo1, idFoo2, idOo1, idOo2]" idFoo1 idFoo2 regCollideFlagged "''r''"
      "[idClash1, idClash2]" idClash1 idClash2 regCollideFlagged
      "''b.x.foo''" "''b.x''" "''Xfoo''" "''a.x.foo''"]
  have "TypeNameOverride_reg regGroupsRenamed idFoo1 =
          capitalized (lastSegment (Namespace idFoo1) @ Name idFoo1) \<and>
        TypeNameOverride_reg regGroupsRenamed idFoo1 \<noteq> TypeNameOverride_reg regGroupsRenamed idFoo2"
    using th r1 a1 m1 g1 by blast
  then have "TypeNameOverride_reg regGroupsRenamed idFoo1 = ''XFoo'' \<and>
        TypeNameOverride_reg regGroupsRenamed idFoo1 \<noteq> TypeNameOverride_reg regGroupsRenamed idFoo2"
    unfolding c1 .
  then show ?thesis using r1 a1 a2 m1 g1 m2 g2 o2 r2 f2 by blast
qed

section \<open>The record codec\<close>

text \<open>
  C8, as the spec states it, fails on the code. The record has no required field, so no
  required field is absent from any input. But the setter of \<open>using\<close> reads a string: on an
  input whose key \<open>using\<close> has an array as value the read fails, and \<open>UnmarshalField\<close>, the
  callback and \<open>UnmarshalRestLi\<close> return its error.
\<close>

theorem unreadable_value_counterexample:
  "ExtensionSchemaAnnotationRequiredFields = [] \<and>
   UnmarshalRestLi recordZero (Unread (WMap [(''using'', WArray [])])) = Inl DeserializationError"
proof -
  have "ExtensionSchemaAnnotationRequiredFields = []"
    by (simp add: ExtensionSchemaAnnotationRequiredFields_def)
  moreover have
    "UnmarshalRestLi recordZero (Unread (WMap [(''using'', WArray [])])) = Inl DeserializationError"
    by code_simp
  ultimately show ?thesis by simp
qed

text \<open>
  C8, amended. Unmarshalling a record from a keyed structure \<open>kvs\<close>.
  The entries with an unrecognized key are skipped without error: the result is the one of
  the input without them.
  When the value of every recognized key can be read by the setter of the key (\<open>readable\<close>):
  each of \<open>using\<close>, \<open>params\<close> and \<open>versionSuffix\<close> ends with the value that its setter read from
  the last entry with that key, or keeps the value of the receiver when the input has no such
  key (\<open>dispatched\<close>); \<open>UnmarshalRestLi\<close>, which has no required field, returns this record, which
  is the receiver when the input has unrecognized keys only; and whatever list of required
  fields the reader is given, \<open>ReadRecord\<close> fails exactly when one of them is not a key of the
  input, with the error that names such a field, and returns the decoded record otherwise.
  When the value of some recognized key cannot be read, unmarshalling fails with the error of
  the reader, whether a required field is absent or not.
\<close>

theorem record_unmarshal:
  "UnmarshalRestLi e (Unread (WMap (filter (\<lambda>(k, v). recognized k) kvs))) =
     UnmarshalRestLi e (Unread (WMap kvs))
   \<and> ((\<forall>(k, v) \<in> set kvs. readable k v) \<longrightarrow>
        (\<exists>e'. dispatched e kvs e' \<and>
           UnmarshalRestLi e (Unread (WMap kvs)) = Inr (e', Consumed) \<and>
           ((\<forall>(k, v) \<in> set kvs. \<not> recognized k) \<longrightarrow> e' = e) \<and>
           (set required \<subseteq> fst ` set kvs \<longrightarrow>
              ReadRecord (Unread (WMap kvs)) required UnmarshalRestLi_callback e =
                Inr (e', Consumed)) \<and>
           (\<not> set required \<subseteq> fst ` set kvs \<longrightarrow>
              (\<exists>r. r \<in> set required \<and> r \<notin> fst ` set kvs \<and>
                 ReadRecord (Unread (WMap kvs)) required UnmarshalRestLi_callback e =
                   Inl (MissingRequiredField r)))))
   \<and> (\<not> (\<forall>(k, v) \<in> set kvs. readable k v) \<longrightarrow>
        UnmarshalRestLi e (Unread (WMap kvs)) = Inl DeserializationError \<and>
        ReadRecord (Unread (WMap kvs)) required UnmarshalRestLi_callback e =
          Inl DeserializationError)"
proof -
  have skip: "UnmarshalRestLi e (Unread (WMap (filter (\<lambda>(k, v). recognized k) kvs))) =
     UnmarshalRestLi e (Unread (WMap kvs))"
    by (simp add: UnmarshalRestLi_entries readEntries_skip_unknown)
  have good: "\<exists>e'. dispatched e kvs e' \<and>
           UnmarshalRestLi e (Unread (WMap kvs)) = Inr (e', Consumed) \<and>
           ((\<forall>(k, v) \<in> set kvs. \<not> recognized k) \<longrightarrow> e' = e) \<and>
           (set required \<subseteq> fst ` set kvs \<longrightarrow>
              ReadRecord (Unread (WMap kvs)) required UnmarshalRestLi_callback e =
                Inr (e', Consumed)) \<and>
           (\<not> set required \<subseteq> fst ` set kvs \<longrightarrow>
              (\<exists>r. r \<in> set required \<and> r \<notin> fst ` set kvs \<and>
                 ReadRecord (Unread (WMap kvs)) required UnmarshalRestLi_callback e =
                   Inl (MissingRequiredField r)))"
    if h: "\<forall>(k, v) \<in> set kvs. readable k v"
  proof -
    from readEntries_dispatched[OF h, of e] obtain e' where
      r: "readEntries UnmarshalRestLi_callback e kvs = Inr e'" and d: "dispatched e kvs e'"
      by blast
    have u: "UnmarshalRestLi e (Unread (WMap kvs)) = Inr (e', Consumed)"
      by (simp add: UnmarshalRestLi_entries r)
    have o: "(\<forall>(k, v) \<in> set kvs. \<not> recognized k) \<longrightarrow> e' = e"
      using readEntries_only_unknown[of kvs e] r by auto
    from d u o ReadRecord_required[OF r, of required] show ?thesis
      by blast
  qed
  have bad: "UnmarshalRestLi e (Unread (WMap kvs)) = Inl DeserializationError \<and>
        ReadRecord (Unread (WMap kvs)) required UnmarshalRestLi_callback e =
          Inl DeserializationError"
    if h: "\<not> (\<forall>(k, v) \<in> set kvs. readable k v)"
    using readEntries_unreadable[OF h, of e]
    by (simp add: UnmarshalRestLi_entries ReadRecord_unreadable)
  from skip good bad show ?thesis by blast
qed

theorem record_unmarshal_witness:
  "readable ''using'' (WString ''get_all'') \<and> readable ''extra'' (WArray [WString ''x''])
   \<and> readable ''params'' (WMap [(''a'', WString ''b'')])
   \<and> UnmarshalRestLi recordZero (Unread (WMap inputEntries)) =
        Inr (\<lparr>Using = Some ''get_all'', Params = Some [(''a'', ''b'')], VersionSuffix = None\<rparr>,
             Consumed)
   \<and> ReadRecord (Unread (WMap inputEntries)) [''using'', ''versionSuffix'']
        UnmarshalRestLi_callback recordZero = Inl (MissingRequiredField ''versionSuffix'')
   \<and> ReadRecord (Unread (WMap inputEntries)) [''using'', ''params'']
        UnmarshalRestLi_callback recordZero =
        Inr (\<lparr>Using = Some ''get_all'', Params = Some [(''a'', ''b'')], VersionSuffix = None\<rparr>,
             Consumed)"
proof -
  have h: "\<forall>(k, v) \<in> set inputEntries. readable k v" by code_simp
  have h1: "readable ''using'' (WString ''get_all'')" by code_simp
  have h2: "readable ''extra'' (WArray [WString ''x''])" by code_simp
  have h3: "readable ''params'' (WMap [(''a'', WString ''b'')])" by code_simp
  have u: "UnmarshalRestLi recordZero (Unread (WMap inputEntries)) =
      Inr (\<lparr>Using = Some ''get_all'', Params = Some [(''a'', ''b'')], VersionSuffix = None\<rparr>,
           Consumed)"
    by code_simp
  have k1: "\<not> set [''using'', ''versionSuffix''] \<subseteq> fst ` set inputEntries" by code_simp
  have k2: "set [''using'', ''params''] \<subseteq> fst ` set inputEntries" by code_simp
  have k3: "''using'' \<in> fst ` set inputEntries" by code_simp
  have m: "\<And>r. r \<in> set [''using'', ''versionSuffix''] \<Longrightarrow> r \<notin> fst ` set inputEntries
      \<Longrightarrow> r = ''versionSuffix''"
    using k3 by auto
  from record_unmarshal[of recordZero inputEntries "[''using'', ''versionSuffix'']"] h k1
  obtain r0 where r0: "r0 \<in> set [''using'', ''versionSuffix'']" "r0 \<notin> fst ` set inputEntries"
      "ReadRecord (Unread (WMap inputEntries)) [''using'', ''versionSuffix'']
         UnmarshalRestLi_callback recordZero = Inl (MissingRequiredField r0)"
    by blast
  from m[OF r0(1,2)] r0(3) have e1:
    "ReadRecord (Unread (WMap inputEntries)) [''using'', ''versionSuffix'']
       UnmarshalRestLi_callback recordZero = Inl (MissingRequiredField ''versionSuffix'')" by simp
  from record_unmarshal[of recordZero inputEntries "[''using'', ''params'']"] h k2
  obtain e' where "UnmarshalRestLi recordZero (Unread (WMap inputEntries)) = Inr (e', Consumed)"
    "ReadRecord (Unread (WMap inputEntries)) [''using'', ''params'']
        UnmarshalRestLi_callback recordZero = Inr (e', Consumed)"
    by blast
  with u have e2: "ReadRecord (Unread (WMap inputEntries)) [''using'', ''params'']
        UnmarshalRestLi_callback recordZero =
        Inr (\<lparr>Using = Some ''get_all'', Params = Some [(''a'', ''b'')], VersionSuffix = None\<rparr>,
             Consumed)"
    by simp
  from h1 h2 h3 u e1 e2 show ?thesis by blast
qed

section \<open>The patch codec\<close>

text \<open>
  C7. A field is in both sections of a patch value when it is marked in \<open>Delete_Fields\<close> and has
  a value in \<open>Set_Fields\<close> (\<open>bothSections\<close>).
  Marshalling a patch value \<open>p\<close>: when some field is in both sections, \<open>MarshalRestLiPatch\<close>
  fails with the error that names the record type and a field that is in both sections; when
  none is, it writes a keyed structure with the key \<open>$delete\<close> exactly when some field is
  marked for deletion and the key \<open>$set\<close> exactly when some field has a value to set, each
  with a non-empty section: the names of the fields to delete, and the fields to set as keys; a patch with nothing to delete and nothing to set marshals to the
  empty structure, and the empty structure unmarshals to it.
  Unmarshalling into \<open>e\<close>: when the reader fails on the input, that error is returned; when it
  decodes the input to the patch value \<open>e'\<close>, \<open>UnmarshalRestLiPatch\<close> fails with the error that
  names the record type and a field that is in both sections of \<open>e'\<close> when there is one, and
  returns \<open>e'\<close> otherwise. An input that lists a field of the record in a \<open>$delete\<close> array and
  has it as a key of a \<open>$set\<close> structure never unmarshals: the patch value it decodes to, if
  any, has this field in both sections. Keys other than \<open>$delete\<close> and \<open>$set\<close> are skipped.
\<close>

theorem patch_exclusive:
  "((\<exists>field. bothSections p field) \<longrightarrow>
      (\<exists>g. bothSections p g \<and>
         MarshalRestLiPatch p =
           Inl (PatchConflict ''com.linkedin.restli.common.ExtensionSchemaAnnotation'' g)))
   \<and> (\<not> (\<exists>field. bothSections p field) \<longrightarrow>
      (\<exists>ds ss. Delete_MarshalRestLi (Delete_Fields p) = Inr (WArray ds) \<and>
         Set_MarshalRestLi (Set_Fields p) = Inr (WMap ss) \<and>
         ds = map WString (filter (isDeleted (Delete_Fields p))
                             [''params'', ''using'', ''versionSuffix'']) \<and>
         map fst ss = filter (isSet (Set_Fields p)) [''params'', ''using'', ''versionSuffix''] \<and>
         (ds = [] \<longleftrightarrow> \<not> (\<exists>field. isDeleted (Delete_Fields p) field)) \<and>
         (ss = [] \<longleftrightarrow> \<not> (\<exists>field. isSet (Set_Fields p) field)) \<and>
         MarshalRestLiPatch p =
           Inr (WMap ((if ds = [] then [] else [(''$delete'', WArray ds)]) @
                      (if ss = [] then [] else [(''$set'', WMap ss)])))))
   \<and> (\<not> (\<exists>field. isDeleted (Delete_Fields p) field) \<and>
       \<not> (\<exists>field. isSet (Set_Fields p) field) \<longrightarrow>
         MarshalRestLiPatch p = Inr (WMap []) \<and>
         UnmarshalRestLiPatch p (Unread (WMap [])) = Inr (p, Consumed))
   \<and> (ReadMap reader UnmarshalRestLiPatch_callback e = Inl err \<longrightarrow>
         UnmarshalRestLiPatch e reader = Inl err)
   \<and> (ReadMap reader UnmarshalRestLiPatch_callback e = Inr (e', reader') \<longrightarrow>
        ((\<exists>field. bothSections e' field) \<longrightarrow>
           (\<exists>g. bothSections e' g \<and>
              UnmarshalRestLiPatch e reader =
                Inl (PatchConflict ''com.linkedin.restli.common.ExtensionSchemaAnnotation'' g))) \<and>
        (\<not> (\<exists>field. bothSections e' field) \<longrightarrow>
           UnmarshalRestLiPatch e reader = Inr (e', reader')))
   \<and> (recognized f \<and> inDeleteSection kvs f \<and> inSetSection kvs f \<longrightarrow>
        isl (UnmarshalRestLiPatch e0 (Unread (WMap kvs))) \<and>
        (\<forall>e1 r1. ReadMap (Unread (WMap kvs)) UnmarshalRestLiPatch_callback e0 = Inr (e1, r1)
           \<longrightarrow> bothSections e1 f))
   \<and> UnmarshalRestLiPatch e0
        (Unread (WMap (filter (\<lambda>(k, v). k = ''$delete'' \<or> k = ''$set'') kvs))) =
      UnmarshalRestLiPatch e0 (Unread (WMap kvs))"
proof -
  have m1: "\<exists>g. bothSections p g \<and>
         MarshalRestLiPatch p =
           Inl (PatchConflict ''com.linkedin.restli.common.ExtensionSchemaAnnotation'' g)"
    if "\<exists>field. bothSections p field"
  proof -
    from that have c: "conflicts p \<noteq> []" using conflicts_bothSections[of p] by blast
    from hd_bothSections[OF c] MarshalRestLiPatch_conflict[OF c] show ?thesis by blast
  qed
  have m2: "\<exists>ds ss. Delete_MarshalRestLi (Delete_Fields p) = Inr (WArray ds) \<and>
         Set_MarshalRestLi (Set_Fields p) = Inr (WMap ss) \<and>
         ds = map WString (filter (isDeleted (Delete_Fields p))
                             [''params'', ''using'', ''versionSuffix'']) \<and>
         map fst ss = filter (isSet (Set_Fields p)) [''params'', ''using'', ''versionSuffix''] \<and>
         (ds = [] \<longleftrightarrow> \<not> (\<exists>field. isDeleted (Delete_Fields p) field)) \<and>
         (ss = [] \<longleftrightarrow> \<not> (\<exists>field. isSet (Set_Fields p) field)) \<and>
         MarshalRestLiPatch p =
           Inr (WMap ((if ds = [] then [] else [(''$delete'', WArray ds)]) @
                      (if ss = [] then [] else [(''$set'', WMap ss)])))"
    if "\<not> (\<exists>field. bothSections p field)"
  proof -
    from that have c: "conflicts p = []" using conflicts_bothSections[of p] by blast
    from MarshalRestLiPatch_ok[OF c] show ?thesis .
  qed
  have m3: "MarshalRestLiPatch p = Inr (WMap []) \<and>
         UnmarshalRestLiPatch p (Unread (WMap [])) = Inr (p, Consumed)"
    if h: "\<not> (\<exists>field. isDeleted (Delete_Fields p) field) \<and>
       \<not> (\<exists>field. isSet (Set_Fields p) field)"
  proof -
    from h have nb: "\<not> (\<exists>field. bothSections p field)" by (simp add: bothSections_def)
    then have c: "conflicts p = []" using conflicts_bothSections[of p] by blast
    from m2[OF nb] h have "MarshalRestLiPatch p = Inr (WMap [])" by auto
    moreover have "ReadMap (Unread (WMap [])) UnmarshalRestLiPatch_callback p = Inr (p, Consumed)"
      by (simp add: ReadMap_entries)
    from UnmarshalRestLiPatch_checked(2)[OF this c]
    have "UnmarshalRestLiPatch p (Unread (WMap [])) = Inr (p, Consumed)" .
    ultimately show ?thesis by simp
  qed
  have u0: "UnmarshalRestLiPatch e reader = Inl err"
    if "ReadMap reader UnmarshalRestLiPatch_callback e = Inl err"
    using that by (simp add: UnmarshalRestLiPatch_def)
  have u1: "((\<exists>field. bothSections e' field) \<longrightarrow>
           (\<exists>g. bothSections e' g \<and>
              UnmarshalRestLiPatch e reader =
                Inl (PatchConflict ''com.linkedin.restli.common.ExtensionSchemaAnnotation'' g))) \<and>
        (\<not> (\<exists>field. bothSections e' field) \<longrightarrow>
           UnmarshalRestLiPatch e reader = Inr (e', reader'))"
    if r: "ReadMap reader UnmarshalRestLiPatch_callback e = Inr (e', reader')"
  proof (cases "conflicts e' = []")
    case True
    with UnmarshalRestLiPatch_checked(2)[OF r True] conflicts_bothSections[of e']
    show ?thesis by blast
  next
    case False
    with UnmarshalRestLiPatch_checked(1)[OF r False] hd_bothSections[OF False]
      conflicts_bothSections[of e']
    show ?thesis by blast
  qed
  have u2: "isl (UnmarshalRestLiPatch e0 (Unread (WMap kvs))) \<and>
        (\<forall>e1 r1. ReadMap (Unread (WMap kvs)) UnmarshalRestLiPatch_callback e0 = Inr (e1, r1)
           \<longrightarrow> bothSections e1 f)"
    if h: "recognized f \<and> inDeleteSection kvs f \<and> inSetSection kvs f"
    using UnmarshalRestLiPatch_input[of f kvs e0] h by blast
  note u3 = UnmarshalRestLiPatch_skip[of e0 kvs]
  from m1 m2 m3 u0 u1 u2 u3 show ?thesis by blast
qed

theorem patch_exclusive_witness:
  "bothSections patchBoth ''using''
   \<and> MarshalRestLiPatch patchBoth =
       Inl (PatchConflict ''com.linkedin.restli.common.ExtensionSchemaAnnotation'' ''using'')
   \<and> MarshalRestLiPatch patchDeleteSet =
       Inr (WMap [(''$delete'', WArray [WString ''params'']),
                  (''$set'', WMap [(''using'', WString ''get_all'')])])
   \<and> MarshalRestLiPatch patchZero = Inr (WMap [])
   \<and> UnmarshalRestLiPatch patchZero (Unread (WMap [])) = Inr (patchZero, Consumed)
   \<and> recognized ''params'' \<and> inDeleteSection inputBoth ''params''
   \<and> inSetSection inputBoth ''params''
   \<and> UnmarshalRestLiPatch patchZero (Unread (WMap inputBoth)) =
       Inl (PatchConflict ''com.linkedin.restli.common.ExtensionSchemaAnnotation'' ''params'')"
proof -
  have b: "\<exists>field. bothSections patchBoth field"
  proof
    show "bothSections patchBoth ''using''" by code_simp
  qed
  have mb: "MarshalRestLiPatch patchBoth =
       Inl (PatchConflict ''com.linkedin.restli.common.ExtensionSchemaAnnotation'' ''using'')"
    by code_simp
  from patch_exclusive[of patchBoth] b obtain g where
    "bothSections patchBoth g" "MarshalRestLiPatch patchBoth =
       Inl (PatchConflict ''com.linkedin.restli.common.ExtensionSchemaAnnotation'' g)"
    by blast
  with mb have c1: "bothSections patchBoth ''using''" by simp
  have md: "MarshalRestLiPatch patchDeleteSet =
       Inr (WMap [(''$delete'', WArray [WString ''params'']),
                  (''$set'', WMap [(''using'', WString ''get_all'')])])"
    by code_simp
  have z: "\<not> (\<exists>field. isDeleted (Delete_Fields patchZero) field) \<and>
       \<not> (\<exists>field. isSet (Set_Fields patchZero) field)"
    unfolding anyDeleted_eq anySet_eq by (simp add: patchZero_def)
  from patch_exclusive[of patchZero] z have c3: "MarshalRestLiPatch patchZero = Inr (WMap [])"
    and c4: "UnmarshalRestLiPatch patchZero (Unread (WMap [])) = Inr (patchZero, Consumed)"
    by blast+
  have i1: "recognized ''params''" by code_simp
  have i2: "inDeleteSection inputBoth ''params''" by code_simp
  have i3: "inSetSection inputBoth ''params''" by code_simp
  have ub: "UnmarshalRestLiPatch patchZero (Unread (WMap inputBoth)) =
       Inl (PatchConflict ''com.linkedin.restli.common.ExtensionSchemaAnnotation'' ''params'')"
    by code_simp
  from c1 mb md c3 c4 i1 i2 i3 ub show ?thesis by blast
qed

end
